theory Spec2Isabelle
  imports
    Main
    "HOL-Library.Multiset"
    "HOL-Library.Sublist"
    "HOL-Library.Char_ord"
    "HOL-Library.List_Lexorder"
    "HOL-Library.Word"
begin

section \<open>The advisory matcher of pkg audit (src/pkg/audit.c)\<close>

text \<open>
  A C string is modelled by the list of the bytes before its terminating NUL. Library
  functions that stop at NUL (\<open>strncmp\<close>, \<open>strcmp\<close>, \<open>strndup\<close>, \<open>strsep\<close>) treat the end
  of the list as the terminator and stop at an embedded NUL as well, so that they can be
  run on raw line buffers. Functions of libc and libpkg whose code is not part of
  audit.c (\<open>qsort\<close>, \<open>fnmatch\<close>, \<open>pkg_version_cmp\<close>) are parameters of the model.
\<close>

subsection \<open>Data model\<close>

definition NUL :: char where "NUL = CHR 0x00"
definition NL :: char where "NL = CHR 0x0A"

definition EQ :: int where "EQ = 1"
definition LT :: int where "LT = 2"
definition LTE :: int where "LTE = 3"
definition GT :: int where "GT = 4"
definition GTE :: int where "GTE = 5"

text \<open>\<open>struct version_entry\<close>: \<open>version\<close> is a pointer, NULL is \<open>None\<close>.\<close>

record version_entry =
  version :: "string option"
  type :: int

text \<open>
  \<open>struct audit_entry\<close> as an element of the list \<open>h\<close>. Every consumer dereferences
  \<open>pkgname\<close>, so the field is a string here; the struct under construction, where it
  may still be NULL, is \<open>parse_st\<close> below.
\<close>

record audit_entry =
  pkgname :: string
  v1 :: version_entry
  v2 :: version_entry
  url :: "string option"
  desc :: "string option"

record audit_entry_sorted =
  e :: audit_entry
  noglob_len :: nat
  next_pfx_incr :: nat

datatype error =
    EPKG_FATAL nat    \<comment> \<open>\<open>fopen\<close> failed; the argument is \<open>errno\<close>\<close>
  | OutOfBounds       \<comment> \<open>a read or write outside the object (undefined behaviour in C)\<close>
  | NullDeref         \<comment> \<open>a NULL pointer would be dereferenced\<close>

subsection \<open>Version range matcher\<close>

text \<open>
  \<open>match_version\<close>, lines 413-440. The comparator \<open>pkg_version_cmp\<close> of libpkg is the
  first parameter; the \<open>switch\<close> has the cases -1, 0 and 1 and no default.
\<close>

definition match_version :: "(string \<Rightarrow> string \<Rightarrow> int) \<Rightarrow> string \<Rightarrow> version_entry \<Rightarrow> bool" where
  "match_version pkg_version_cmp pkgversion ve =
     (case version ve of
        None \<Rightarrow> True
      | Some bound \<Rightarrow>
          (let r = pkg_version_cmp pkgversion bound in
           if r = - 1 then type ve = LT \<or> type ve = LTE
           else if r = 0 then type ve = EQ \<or> type ve = LTE \<or> type ve = GTE
           else if r = 1 then type ve = GT \<or> type ve = GTE
           else False))"

subsection \<open>Advisory parser\<close>

text \<open>
  A buffer is the list of its bytes before the terminating NUL that \<open>getline\<close> writes:
  index \<open>length mem\<close> is that NUL, anything beyond lies outside the line.
\<close>

definition peek :: "string \<Rightarrow> nat \<Rightarrow> char option" where
  "peek mem i =
     (if i < length mem then Some (mem ! i)
      else if i = length mem then Some NUL
      else None)"

text \<open>\<open>strndup(s, n)\<close>: at most \<open>n\<close> bytes, stopping at a NUL.\<close>

definition strndup :: "string \<Rightarrow> nat \<Rightarrow> string" where
  "strndup s n = takeWhile (\<lambda>c. c \<noteq> NUL) (take n s)"

text \<open>
  The struct that \<open>calloc\<close> returns and \<open>parse_pattern\<close> and \<open>parse_db\<close> fill: every
  pointer starts as NULL.
\<close>

record c_audit_entry =
  c_pkgname :: "string option"
  c_v1 :: version_entry
  c_v2 :: version_entry
  c_url :: "string option"
  c_desc :: "string option"

definition calloc_entry :: c_audit_entry where
  "calloc_entry =
     \<lparr>c_pkgname = None,
      c_v1 = \<lparr>version = None, type = 0\<rparr>,
      c_v2 = \<lparr>version = None, type = 0\<rparr>,
      c_url = None, c_desc = None\<rparr>"

text \<open>
  The targets of \<open>char **dest\<close> (\<open>&e->pkgname\<close>, \<open>&e->v1.version\<close>, \<open>&e->v2.version\<close>)
  and of \<open>struct version_entry *v\<close>.
\<close>

datatype field = F_pkgname | F_v1 | F_v2
datatype vref = V1 | V2

definition version_field :: "vref \<Rightarrow> field" where
  "version_field vr = (case vr of V1 \<Rightarrow> F_v1 | V2 \<Rightarrow> F_v2)"

definition set_type :: "vref \<Rightarrow> int \<Rightarrow> c_audit_entry \<Rightarrow> c_audit_entry" where
  "set_type vr ty ce =
     (case vr of
        V1 \<Rightarrow> ce\<lparr>c_v1 := (c_v1 ce)\<lparr>type := ty\<rparr>\<rparr>
      | V2 \<Rightarrow> ce\<lparr>c_v2 := (c_v2 ce)\<lparr>type := ty\<rparr>\<rparr>)"

definition store :: "field \<Rightarrow> string \<Rightarrow> c_audit_entry \<Rightarrow> c_audit_entry" where
  "store d s ce =
     (case d of
        F_pkgname \<Rightarrow> ce\<lparr>c_pkgname := Some s\<rparr>
      | F_v1 \<Rightarrow> ce\<lparr>c_v1 := (c_v1 ce)\<lparr>version := Some s\<rparr>\<rparr>
      | F_v2 \<Rightarrow> ce\<lparr>c_v2 := (c_v2 ce)\<lparr>version := Some s\<rparr>\<rparr>)"

text \<open>
  The three \<open>if\<close> statements at the head of the loop body (lines 214-234), from
  \<open>pattern[i]\<close> and \<open>pattern[i+1]\<close>: the comparator type (0 for none) and \<open>skipnext\<close>.
\<close>

definition cmp_token :: "char \<Rightarrow> char \<Rightarrow> int \<times> nat" where
  "cmp_token c c1 =
     (let r0 = (if c = CHR ''='' then (EQ, 0) else (0, 0));
          r1 = (if c = CHR ''<'' then (if c1 = CHR ''='' then (LTE, 1) else (LT, 0)) else r0)
      in (if c = CHR ''>'' then (if c1 = CHR ''='' then (GTE, 1) else (GT, 0)) else r1))"

text \<open>
  The \<open>for\<close> loop of \<open>parse_pattern\<close> (lines 213-251). Its state is the locals \<open>i\<close>,
  \<open>start\<close>, \<open>dest\<close>, \<open>v\<close> and the struct; \<open>next_dest\<close> is set and cleared within one
  iteration. \<open>pp_step\<close> is one run of the body followed by the \<open>i++\<close> of the loop
  header. \<open>pattern[i+1]\<close> is read only after \<open>pattern[i]\<close> was a \<open><\<close> or \<open>>\<close>, so it is
  at most the terminator.
\<close>

type_synonym pp_state = "nat \<times> nat \<times> field option \<times> vref \<times> c_audit_entry"

definition pp_step :: "string \<Rightarrow> nat \<Rightarrow> pp_state \<Rightarrow> error + pp_state" where
  "pp_step pattern len s =
     (case s of (i, st, dest, vr, ce) \<Rightarrow>
        (case peek pattern i of
           None \<Rightarrow> Inl OutOfBounds
         | Some c \<Rightarrow>
             (let c1 = (case peek pattern (i + 1) of Some x \<Rightarrow> x | None \<Rightarrow> NUL);
                  ty = fst (cmp_token c c1);
                  skipnext = snd (cmp_token c c1);
                  ce1 = (if ty \<noteq> 0 then set_type vr ty ce else ce);
                  next_dest = (if ty \<noteq> 0 then Some (version_field vr) else None);
                  vr1 = (if ty \<noteq> 0 then V2 else vr)
              in
                if next_dest \<noteq> None \<or> i = len - 1 then
                  (case dest of
                     None \<Rightarrow> Inl NullDeref
                   | Some d \<Rightarrow>
                       Inr (i + skipnext + 1, i + skipnext + 1, next_dest, vr1,
                            store d (strndup (drop st pattern) (i - st)) ce1))
                else Inr (i + 1, st, dest, vr1, ce1))))"

lemma pp_step_advances: "pp_step pattern len (i, rest) = Inr (j, rest') \<Longrightarrow> i < j"
  by (cases rest) (auto simp: pp_step_def Let_def split: option.splits if_splits)

function parse_pattern_loop :: "string \<Rightarrow> nat \<Rightarrow> pp_state \<Rightarrow> error + c_audit_entry" where
  "parse_pattern_loop pattern len s =
     (if fst s < len then
        (case pp_step pattern len s of
           Inl err \<Rightarrow> Inl err
         | Inr s1 \<Rightarrow> parse_pattern_loop pattern len s1)
      else Inr (snd (snd (snd (snd s)))))"
  by pat_completeness auto
termination
proof (relation "measure (\<lambda>(pattern, len, s). len - fst s)")
  show "wf (measure (\<lambda>(pattern, len, s). len - fst s))" by simp
next
  fix pattern :: string and len :: nat and s s1 :: pp_state
  assume lt: "fst s < len" and step: "pp_step pattern len s = Inr s1"
  obtain i r where s: "s = (i, r)" by (cases s)
  obtain j r1 where s1: "s1 = (j, r1)" by (cases s1)
  from step s s1 have "i < j" by (auto dest: pp_step_advances)
  with lt s s1 show "((pattern, len, s1), (pattern, len, s)) \<in> measure (\<lambda>(pattern, len, s). len - fst s)"
    by simp
qed

declare parse_pattern_loop.simps [simp del]

definition parse_pattern :: "c_audit_entry \<Rightarrow> string \<Rightarrow> nat \<Rightarrow> error + c_audit_entry" where
  "parse_pattern ce pattern len = parse_pattern_loop pattern len (0, 0, Some F_pkgname, V1, ce)"

text \<open>
  \<open>strsep(&line, "|")\<close> on the memory from \<open>line\<close> on: the token, and the new value of
  \<open>line\<close> (NULL when the terminator came first). \<open>zap\<close> is the same memory after the call,
  the delimiter overwritten with NUL.
\<close>

fun strsep :: "string \<Rightarrow> string \<times> string option" where
  "strsep [] = ([], None)"
| "strsep (c # cs) =
     (if c = NUL then ([], None)
      else if c = CHR ''|'' then ([], Some cs)
      else (c # fst (strsep cs), snd (strsep cs)))"

fun zap :: "string \<Rightarrow> string" where
  "zap [] = []"
| "zap (c # cs) =
     (if c = NUL then c # cs
      else if c = CHR ''|'' then NUL # cs
      else c # zap cs)"

lemma strsep_rest_shorter: "snd (strsep mem) = Some r \<Longrightarrow> length r < length mem"
  by (induction mem) (auto split: if_splits)

text \<open>
  The inner \<open>while\<close> loop of \<open>parse_db\<close> (lines 277-293). \<open>column_id\<close> is a \<open>uint8_t\<close>:
  it wraps to 0 after 256 columns. \<open>parse_pattern\<close> is given \<open>linelen\<close>, the length of
  the whole line, whatever the column.
\<close>

function columns :: "nat \<Rightarrow> string option \<Rightarrow> 8 word \<Rightarrow> c_audit_entry \<Rightarrow> error + c_audit_entry" where
  "columns linelen None column_id ce = Inr ce"
| "columns linelen (Some mem) column_id ce =
     (let column = fst (strsep mem);
          r = (if column_id = 0 then parse_pattern ce (zap mem) linelen
               else if column_id = 1 then Inr (ce\<lparr>c_url := Some column\<rparr>)
               else if column_id = 2 then Inr (ce\<lparr>c_desc := Some column\<rparr>)
               else Inr ce)
      in case r of
           Inl err \<Rightarrow> Inl err
         | Inr ce1 \<Rightarrow> columns linelen (snd (strsep mem)) (column_id + 1) ce1)"
  by pat_completeness auto
termination
  by (relation "measure (\<lambda>(linelen, line, column_id, ce). case line of None \<Rightarrow> 0 | Some m \<Rightarrow> Suc (length m))")
     (auto split: option.splits dest: strsep_rest_shorter)

declare columns.simps [simp del]

text \<open>
  One line as \<open>getline\<close> returned it (its bytes, the newline included when there is one).
  \<open>None\<close> is a comment line. A NULL \<open>pkgname\<close> would be dereferenced as soon as the entry
  is used (\<open>str_noglob_len\<close> in \<open>preprocess_db\<close>); the model reports it here.
\<close>

definition parse_line :: "string \<Rightarrow> error + audit_entry option" where
  "parse_line line =
     (if peek line 0 = Some (CHR ''#'') then Inr None
      else
        (case columns (length line) (Some line) 0 calloc_entry of
           Inl err \<Rightarrow> Inl err
         | Inr ce \<Rightarrow>
             (case c_pkgname ce of
                None \<Rightarrow> Inl NullDeref
              | Some p \<Rightarrow>
                  Inr (Some \<lparr>pkgname = p, v1 = c_v1 ce, v2 = c_v2 ce,
                             url = c_url ce, desc = c_desc ce\<rparr>))))"

text \<open>
  The outer loop (line 268): it ends when \<open>getline\<close> returns no byte, and
  \<open>SLIST_INSERT_HEAD\<close> puts each entry in front of the earlier ones.
\<close>

fun parse_lines :: "string list \<Rightarrow> audit_entry list \<Rightarrow> error + audit_entry list" where
  "parse_lines [] h = Inr h"
| "parse_lines (line # ls) h =
     (if length line = 0 then Inr h
      else
        (case parse_line line of
           Inl err \<Rightarrow> Inl err
         | Inr None \<Rightarrow> parse_lines ls h
         | Inr (Some ae) \<Rightarrow> parse_lines ls (ae # h)))"

text \<open>
  \<open>parse_db\<close>: the file is what \<open>fopen\<close> and \<open>getline\<close> give, either \<open>errno\<close> of the
  failed \<open>fopen\<close> or the lines in order.
\<close>

definition parse_db :: "nat + string list \<Rightarrow> audit_entry list \<Rightarrow> error + audit_entry list" where
  "parse_db src h =
     (case src of
        Inl errno \<Rightarrow> Inl (EPKG_FATAL errno)
      | Inr ls \<Rightarrow> parse_lines ls h)"

subsection \<open>C string functions\<close>

text \<open>\<open>s[0]\<close> of a C string: the terminator when the string is empty.\<close>

definition first_byte :: "string \<Rightarrow> char" where
  "first_byte s = (case s of [] \<Rightarrow> NUL | c # _ \<Rightarrow> c)"

text \<open>
  \<open>strncmp\<close> and \<open>strcmp\<close> compare bytes as \<open>unsigned char\<close> and return their difference
  at the first mismatch (only the sign is used by audit.c).
\<close>

fun strncmp :: "string \<Rightarrow> string \<Rightarrow> nat \<Rightarrow> int" where
  "strncmp s1 s2 0 = 0"
| "strncmp s1 s2 (Suc n) =
     (if first_byte s1 \<noteq> first_byte s2
      then int (of_char (first_byte s1)) - int (of_char (first_byte s2))
      else if first_byte s1 = NUL then 0
      else strncmp (tl s1) (tl s2) n)"

fun strcmp :: "string \<Rightarrow> string \<Rightarrow> int" where
  "strcmp [] s2 = - int (of_char (first_byte s2))"
| "strcmp (c1 # s1) s2 =
     (if c1 \<noteq> first_byte s2 then int (of_char c1) - int (of_char (first_byte s2))
      else if c1 = NUL then 0
      else strcmp s1 (tl s2))"

text \<open>
  \<open>(size_t)c\<close> for a \<open>char c\<close>. Whether \<open>char\<close> is signed is implementation-defined (it
  is on x86, it is not on ARM): with a signed \<open>char\<close> a byte of 128 or more is negative
  and converts to a value near the top of \<open>size_t\<close> (64 bits here; any width gives a
  value above 255).
\<close>

definition size_t_of_char :: "bool \<Rightarrow> char \<Rightarrow> nat" where
  "size_t_of_char char_signed c =
     (if char_signed \<and> 128 \<le> (of_char c :: nat) then 2 ^ 64 - 256 + of_char c else of_char c)"

subsection \<open>Prefix index builder\<close>

text \<open>\<open>str_noglob_len\<close>, lines 304-313.\<close>

fun str_noglob_len :: "string \<Rightarrow> nat" where
  "str_noglob_len [] = 0"
| "str_noglob_len (c # s) =
     (if c \<noteq> NUL \<and> c \<noteq> CHR ''*'' \<and> c \<noteq> CHR ''?'' \<and> c \<noteq> CHR ''['' \<and> c \<noteq> CHR ''{''
         \<and> c \<noteq> CHR 0x5C
      then Suc (str_noglob_len s) else 0)"

text \<open>\<open>audit_entry_compare\<close>, lines 318-343.\<close>

definition audit_entry_compare :: "audit_entry_sorted \<Rightarrow> audit_entry_sorted \<Rightarrow> int" where
  "audit_entry_compare e1 e2 =
     (let min_len = (if noglob_len e1 < noglob_len e2 then noglob_len e1 else noglob_len e2);
          result = strncmp (pkgname (e e1)) (pkgname (e e2)) min_len
      in if result = 0 then
           (if noglob_len e1 < noglob_len e2 then - 1
            else if noglob_len e1 > noglob_len e2 then 1
            else result)
         else result)"

text \<open>
  The array \<open>ret\<close> is the list of its slots before the zeroed one that ends it: index
  \<open>length ret\<close> is that sentinel (\<open>e == NULL\<close>), anything beyond is outside the
  allocation of \<open>n + 1\<close> slots.

  Lines 365-371: one slot per list element, in list order.
\<close>

definition init_slots :: "audit_entry list \<Rightarrow> audit_entry_sorted list" where
  "init_slots h =
     map (\<lambda>ae. \<lparr>e = ae, noglob_len = str_noglob_len (pkgname ae), next_pfx_incr = 1\<rparr>) h"

text \<open>
  Line 373. \<open>qsort\<close> is the first parameter; \<open>sort_slots\<close> is the array after the call.
\<close>

type_synonym qsort_fn =
  "(audit_entry_sorted \<Rightarrow> audit_entry_sorted \<Rightarrow> int) \<Rightarrow> audit_entry_sorted list \<Rightarrow> audit_entry_sorted list"

definition sort_slots :: "qsort_fn \<Rightarrow> audit_entry list \<Rightarrow> audit_entry_sorted list" where
  "sort_slots qsort h = qsort audit_entry_compare (init_slots h)"

text \<open>
  The inner loop of lines 390-391, writing \<open>base[i].next_pfx_incr\<close> from index \<open>b\<close> on.
\<close>

fun fill :: "audit_entry_sorted list \<Rightarrow> nat \<Rightarrow> nat \<Rightarrow> audit_entry_sorted list" where
  "fill ret b tofill =
     (if 1 < tofill
      then fill (ret[b := (ret ! b)\<lparr>next_pfx_incr := tofill\<rparr>]) (Suc b) (tofill - 1)
      else ret)"

declare fill.simps [simp del]

text \<open>
  The loop of lines 385-399, entered with \<open>n = 1\<close> and \<open>tofill = 0\<close>. \<open>base\<close> is
  \<open>ret + n - tofill\<close>; it is written through only when \<open>tofill > 1\<close>.
\<close>

function incr_loop :: "audit_entry_sorted list \<Rightarrow> nat \<Rightarrow> nat \<Rightarrow> error + audit_entry_sorted list" where
  "incr_loop ret n tofill =
     (if length ret < n \<or> n = 0 then Inl OutOfBounds
      else if n = length ret then Inr ret
      else if noglob_len (ret ! (n - 1)) \<noteq> noglob_len (ret ! n) then
        (if 1 < tofill \<and> n < tofill then Inl OutOfBounds
         else incr_loop (fill ret (n - tofill) tofill) (Suc n) 1)
      else if strcmp (pkgname (e (ret ! (n - 1)))) (pkgname (e (ret ! n))) = 0 then
        incr_loop ret (Suc n) (Suc tofill)
      else incr_loop ret (Suc n) 1)"
  by pat_completeness auto

lemma length_fill [simp]: "length (fill ret b tofill) = length ret"
  by (induction ret b tofill rule: fill.induct) (subst fill.simps, simp)

termination incr_loop
  by (relation "measure (\<lambda>(ret, n, tofill). length ret - n)") auto

declare incr_loop.simps [simp del]

text \<open>
  Lines 402-408. \<open>skip_lt\<close> is the \<open>while\<close> loop; it stops at the sentinel, so \<open>i\<close> never
  passes \<open>length ret\<close>. The table starts zeroed and entry 0 is never written.
\<close>

function skip_lt :: "bool \<Rightarrow> audit_entry_sorted list \<Rightarrow> nat \<Rightarrow> nat \<Rightarrow> nat" where
  "skip_lt char_signed ret n i =
     (if i < length ret \<and> size_t_of_char char_signed (first_byte (pkgname (e (ret ! i)))) < n
      then skip_lt char_signed ret n (Suc i)
      else i)"
  by pat_completeness auto
termination
  by (relation "measure (\<lambda>(char_signed, ret, n, i). length ret - i)") auto

declare skip_lt.simps [simp del]

function first_byte_loop :: "bool \<Rightarrow> audit_entry_sorted list \<Rightarrow> nat \<Rightarrow> nat \<Rightarrow> nat list \<Rightarrow> nat list" where
  "first_byte_loop char_signed ret n i tab =
     (if n < 256 then
        first_byte_loop char_signed ret (Suc n) (skip_lt char_signed ret n i)
          (tab[n := skip_lt char_signed ret n i])
      else tab)"
  by pat_completeness auto
termination
  by (relation "measure (\<lambda>(char_signed, ret, n, i, tab). 256 - n)") auto

declare first_byte_loop.simps [simp del]

text \<open>
  \<open>preprocess_db\<close>, lines 349-411: the array and the global
  \<open>audit_entry_first_byte_idx\<close>.
\<close>

definition preprocess_db ::
  "bool \<Rightarrow> qsort_fn \<Rightarrow> audit_entry list \<Rightarrow> error + (audit_entry_sorted list \<times> nat list)" where
  "preprocess_db char_signed qsort h =
     (case incr_loop (sort_slots qsort h) 1 0 of
        Inl err \<Rightarrow> Inl err
      | Inr ret \<Rightarrow> Inr (ret, first_byte_loop char_signed ret 1 0 (replicate 256 0)))"

subsection \<open>Vulnerability query\<close>

text \<open>
  The inner loop of \<open>is_vulnerable\<close> (lines 471-488) over \<open>a[0]\<close> .. \<open>a[cnt - 1]\<close>.
  \<open>fnmatch\<close> (called with flags 0) and \<open>pkg_version_cmp\<close> are parameters. The result is
  the list of the entries printed, in order; \<open>res\<close> is true when it is not empty.
\<close>

function examine ::
  "(string \<Rightarrow> string \<Rightarrow> int) \<Rightarrow> (string \<Rightarrow> string \<Rightarrow> int) \<Rightarrow> audit_entry_sorted list \<Rightarrow>
   string \<Rightarrow> string \<Rightarrow> nat \<Rightarrow> nat \<Rightarrow> nat \<Rightarrow> audit_entry list \<Rightarrow> error + audit_entry list" where
  "examine fnmatch pkg_version_cmp ret name ver a i cnt acc =
     (if i < cnt then
        (if length ret < a + i then Inl OutOfBounds
         else if a + i = length ret then Inl NullDeref
         else if fnmatch (pkgname (e (ret ! (a + i)))) name \<noteq> 0 then
           examine fnmatch pkg_version_cmp ret name ver a (Suc i) cnt acc
         else if match_version pkg_version_cmp ver (v1 (e (ret ! (a + i))))
               \<and> match_version pkg_version_cmp ver (v2 (e (ret ! (a + i)))) then
           examine fnmatch pkg_version_cmp ret name ver a (Suc i) cnt (acc @ [e (ret ! (a + i))])
         else examine fnmatch pkg_version_cmp ret name ver a (Suc i) cnt acc)
      else Inr acc)"
  by pat_completeness auto
termination
  by (relation "measure (\<lambda>(fnmatch, pkg_version_cmp, ret, name, ver, a, i, cnt, acc). cnt - i)") auto

declare examine.simps [simp del]

text \<open>
  The outer loop (lines 456-489). It advances by \<open>a->next_pfx_incr\<close>, which the C code
  does not check to be positive, so the loop is a partial function: \<open>None\<close> is a run
  that never returns.
\<close>

partial_function (option) scan ::
  "(string \<Rightarrow> string \<Rightarrow> int) \<Rightarrow> (string \<Rightarrow> string \<Rightarrow> int) \<Rightarrow> audit_entry_sorted list \<Rightarrow>
   string \<Rightarrow> string \<Rightarrow> nat \<Rightarrow> audit_entry list \<Rightarrow> (error + audit_entry list) option" where
  "scan fnmatch pkg_version_cmp ret name ver a acc =
     (if length ret < a then Some (Inl OutOfBounds)
      else if a = length ret then Some (Inr acc)
      else if 0 < strncmp name (pkgname (e (ret ! a))) (noglob_len (ret ! a)) then
        scan fnmatch pkg_version_cmp ret name ver (a + next_pfx_incr (ret ! a)) acc
      else if strncmp name (pkgname (e (ret ! a))) (noglob_len (ret ! a)) < 0 then Some (Inr acc)
      else
        (case examine fnmatch pkg_version_cmp ret name ver a 0 (next_pfx_incr (ret ! a)) acc of
           Inl err \<Rightarrow> Some (Inl err)
         | Inr acc1 \<Rightarrow>
             scan fnmatch pkg_version_cmp ret name ver (a + next_pfx_incr (ret ! a)) acc1))"

declare scan.simps [code]

text \<open>
  \<open>is_vulnerable\<close>, lines 442-492. The table has 256 entries and is indexed with
  \<open>(size_t)pkgname[0]\<close>.
\<close>

definition is_vulnerable ::
  "bool \<Rightarrow> (string \<Rightarrow> string \<Rightarrow> int) \<Rightarrow> (string \<Rightarrow> string \<Rightarrow> int) \<Rightarrow>
   audit_entry_sorted list \<times> nat list \<Rightarrow> string \<times> string \<Rightarrow> (error + audit_entry list) option" where
  "is_vulnerable char_signed fnmatch pkg_version_cmp idx pkg =
     (let name = fst pkg; ver = snd pkg; k = size_t_of_char char_signed (first_byte name) in
      if length (snd idx) \<le> k then Some (Inl OutOfBounds)
      else scan fnmatch pkg_version_cmp (fst idx) name ver (snd idx ! k) [])"

subsection \<open>Instances of the library functions\<close>

text \<open>
  Insertion sort, which is what \<open>qsort\<close> of FreeBSD's libc runs on arrays of fewer than
  7 elements; it is one function that meets the contract of \<open>qsort\<close>, and it is stable.
\<close>

fun insert_cmp :: "('a \<Rightarrow> 'a \<Rightarrow> int) \<Rightarrow> 'a \<Rightarrow> 'a list \<Rightarrow> 'a list" where
  "insert_cmp c x [] = [x]"
| "insert_cmp c x (y # ys) = (if c x y \<le> 0 then x # y # ys else y # insert_cmp c x ys)"

definition insertion_qsort :: "('a \<Rightarrow> 'a \<Rightarrow> int) \<Rightarrow> 'a list \<Rightarrow> 'a list" where
  "insertion_qsort c xs = foldr (insert_cmp c) xs []"

text \<open>
  The fragment of \<open>fnmatch\<close> with flags 0 that has no bracket expression: \<open>*\<close> matches any
  run of bytes, \<open>?\<close> one byte, a backslash quotes the next byte, any other byte matches
  itself. A pattern with \<open>[\<close> is outside the fragment and is answered \<open>FNM_NOMATCH\<close>.
\<close>

fun glob :: "string \<Rightarrow> string \<Rightarrow> bool" where
  "glob [] s = (s = [])"
| "glob (p # ps) [] = (p = CHR ''*'' \<and> glob ps [])"
| "glob (p # ps) (c # s) =
     (if p = CHR ''*'' then glob ps (c # s) \<or> glob (p # ps) s
      else if p = CHR ''?'' then glob ps s
      else if p = CHR ''['' then False
      else if p = CHR 0x5C then (case ps of [] \<Rightarrow> False | q # qs \<Rightarrow> q = c \<and> glob qs s)
      else p = c \<and> glob ps s)"

definition fnmatch_fragment :: "string \<Rightarrow> string \<Rightarrow> int" where
  "fnmatch_fragment pat s = (if glob pat s then 0 else 1)"

text \<open>A comparator for dotted versions of single digits, enough for the examples.\<close>

definition lex_version_cmp :: "string \<Rightarrow> string \<Rightarrow> int" where
  "lex_version_cmp a b = (if a < b then - 1 else if a = b then 0 else 1)"

subsection \<open>Predicates used in the proofs\<close>

text \<open>\<open>pattern[i+1]\<close> as \<open>pp_step\<close> reads it.\<close>

definition lookahead :: "string \<Rightarrow> nat \<Rightarrow> char" where
  "lookahead pattern i = (case peek pattern (i + 1) of Some x \<Rightarrow> x | None \<Rightarrow> NUL)"

text \<open>No string stored by \<open>parse_pattern\<close> holds a newline.\<close>

definition nl_free :: "c_audit_entry \<Rightarrow> bool" where
  "nl_free ce = ((\<forall>p. c_pkgname ce = Some p \<longrightarrow> NL \<notin> set p)
     \<and> (\<forall>p. version (c_v1 ce) = Some p \<longrightarrow> NL \<notin> set p)
     \<and> (\<forall>p. version (c_v2 ce) = Some p \<longrightarrow> NL \<notin> set p))"


definition slot_key :: "audit_entry_sorted \<Rightarrow> string" where
  "slot_key x = take (noglob_len x) (pkgname (e x))"

definition wf_slot :: "audit_entry_sorted \<Rightarrow> bool" where
  "wf_slot x = (noglob_len x = str_noglob_len (pkgname (e x)))"

definition qsort_sorts :: "qsort_fn \<Rightarrow> bool" where
  "qsort_sorts qsort =
     (\<forall>xs. mset (qsort audit_entry_compare xs) = mset xs
         \<and> (list_all wf_slot xs \<longrightarrow>
              sorted_wrt (\<lambda>a b. audit_entry_compare a b \<le> 0) (qsort audit_entry_compare xs)))"

definition qsort_stable :: "qsort_fn \<Rightarrow> bool" where
  "qsort_stable qsort =
     (\<forall>xs k. list_all wf_slot xs \<longrightarrow>
        filter (\<lambda>x. slot_key x = k) (qsort audit_entry_compare xs) = filter (\<lambda>x. slot_key x = k) xs)"

definition contiguous :: "'a list \<Rightarrow> bool" where
  "contiguous ks = (\<forall>i j k. i \<le> j \<and> j \<le> k \<and> k < length ks \<and> ks ! i = ks ! k \<longrightarrow> ks ! j = ks ! i)"

definition group_safe :: "audit_entry_sorted list \<Rightarrow> bool" where
  "group_safe ret =
     (\<forall>j<length ret. 1 \<le> next_pfx_incr (ret ! j) \<and> j + next_pfx_incr (ret ! j) \<le> length ret
        \<and> (\<forall>k. j \<le> k \<and> k < j + next_pfx_incr (ret ! j) \<longrightarrow> slot_key (ret ! k) = slot_key (ret ! j)))"

text \<open>The literal prefix of a name pattern: its bytes before the first glob character.\<close>

definition literal_prefix :: "string \<Rightarrow> string" where
  "literal_prefix s = take (str_noglob_len s) s"

text \<open>
  The entries of the advisory lines in file order: what \<open>parse_db\<close> builds, before the
  head insertion reverses it.
\<close>

fun file_entries :: "string list \<Rightarrow> audit_entry list" where
  "file_entries [] = []"
| "file_entries (line # ls) =
     (if length line = 0 then []
      else
        (case parse_line line of
           Inr (Some ae) \<Rightarrow> ae # file_entries ls
         | _ \<Rightarrow> file_entries ls))"

text \<open>Entries used as examples.\<close>

definition name_only :: "string \<Rightarrow> audit_entry" where
  "name_only s =
     \<lparr>pkgname = s, v1 = \<lparr>version = None, type = 0\<rparr>, v2 = \<lparr>version = None, type = 0\<rparr>,
      url = None, desc = None\<rparr>"

definition adv_first :: audit_entry where
  "adv_first =
     \<lparr>pkgname = ''foo'', v1 = \<lparr>version = Some ''1'', type = LT\<rparr>,
      v2 = \<lparr>version = None, type = 0\<rparr>, url = Some ''u'', desc = Some (''first'' @ [NL])\<rparr>"

definition adv_second :: audit_entry where
  "adv_second =
     \<lparr>pkgname = ''foo'', v1 = \<lparr>version = Some ''2'', type = LT\<rparr>,
      v2 = \<lparr>version = None, type = 0\<rparr>, url = Some ''u'', desc = Some (''second'' @ [NL])\<rparr>"

text \<open>The test of the \<open>while\<close> loop of line 404 on one entry.\<close>

definition below_byte :: "bool \<Rightarrow> nat \<Rightarrow> audit_entry_sorted \<Rightarrow> bool" where
  "below_byte char_signed b x = (size_t_of_char char_signed (first_byte (pkgname (e x))) < b)"

text \<open>
  The property of \<open>fnmatch\<close> that the prefix scan relies on: bytes of the pattern before
  its first special character match themselves, so a matching string starts with the
  literal prefix of the pattern.
\<close>

definition fnmatch_literal :: "(string \<Rightarrow> string \<Rightarrow> int) \<Rightarrow> bool" where
  "fnmatch_literal fnmatch = (\<forall>p s. fnmatch p s = 0 \<longrightarrow> prefix (literal_prefix p) s)"

text \<open>The test that \<open>is_vulnerable\<close> applies to one entry (lines 473-478).\<close>

definition reported ::
  "(string \<Rightarrow> string \<Rightarrow> int) \<Rightarrow> (string \<Rightarrow> string \<Rightarrow> int) \<Rightarrow> string \<Rightarrow> string \<Rightarrow> audit_entry_sorted \<Rightarrow> bool" where
  "reported fnmatch pkg_version_cmp name ver x =
     (fnmatch (pkgname (e x)) name = 0
      \<and> match_version pkg_version_cmp ver (v1 (e x))
      \<and> match_version pkg_version_cmp ver (v2 (e x)))"

text \<open>
  The sort key in the words of the specification (4.2, step 1, and the glossary): the
  leading bytes of the name pattern, a C string, before its first glob metacharacter
  \<open>* ? [ { \<close> or backslash. It is defined without \<open>str_noglob_len\<close>; the order on keys is
  the lexicographic order of byte strings, in which a strict prefix comes before its
  extensions.
\<close>

definition glob_metachar :: "char \<Rightarrow> bool" where
  "glob_metachar c = (c \<in> {CHR ''*'', CHR ''?'', CHR ''['', CHR ''{'', CHR 0x5C})"

definition glob_free_prefix :: "string \<Rightarrow> string" where
  "glob_free_prefix s = takeWhile (\<lambda>c. c \<noteq> NUL \<and> \<not> glob_metachar c) s"

definition entry_key :: "audit_entry_sorted \<Rightarrow> string" where
  "entry_key x = glob_free_prefix (pkgname (e x))"

text \<open>The advisories of the examples about the query.\<close>

definition star_foo :: audit_entry where
  "star_foo =
     \<lparr>pkgname = ''*foo'', v1 = \<lparr>version = None, type = 0\<rparr>, v2 = \<lparr>version = None, type = 0\<rparr>,
      url = Some ''u'', desc = Some (''d'' @ [NL])\<rparr>"

definition heartbleed_line :: string where
  "heartbleed_line = ''openssl>=1.0.0<1.0.2|http://example/adv|heartbleed''"

definition heartbleed_adv :: audit_entry where
  "heartbleed_adv =
     \<lparr>pkgname = ''openssl'', v1 = \<lparr>version = Some ''1.0.0'', type = GTE\<rparr>,
      v2 = \<lparr>version = Some ''1.0.2'', type = LT\<rparr>,
      url = Some ''http://example/adv'', desc = Some ''heartbleed''\<rparr>"

text \<open>
  The part of the loop invariant of \<open>parse_pattern\<close> that holds on every line: \<open>dest\<close>
  is NULL only once the loop is over, and \<open>pkgname\<close> is written by the first store.
\<close>

definition pp_live :: "nat \<Rightarrow> pp_state \<Rightarrow> bool" where
  "pp_live len s = (case s of (i, st, dest, vr, ce) \<Rightarrow>
      (dest \<noteq> None \<or> len \<le> i) \<and> (dest = Some F_pkgname \<or> c_pkgname ce \<noteq> None)
      \<and> (dest = Some F_pkgname \<longrightarrow> i < len))"

text \<open>After the first store \<open>dest\<close> never points to \<open>pkgname\<close> again.\<close>

definition pp_named :: "string \<Rightarrow> pp_state \<Rightarrow> bool" where
  "pp_named p s = (case s of (i, st, dest, vr, ce) \<Rightarrow> dest \<noteq> Some F_pkgname \<and> c_pkgname ce = Some p)"

text \<open>
  The condition of line 236 at index \<open>j\<close>: a comparator starts there, or \<open>j\<close> is the
  last index of the scan.
\<close>

definition pp_trigger :: "string \<Rightarrow> nat \<Rightarrow> nat \<Rightarrow> bool" where
  "pp_trigger pattern len j =
     (fst (cmp_token (pattern ! j) (lookahead pattern j)) \<noteq> 0 \<or> j = len - 1)"

text \<open>A line that begins with \<open>#\<close>.\<close>

definition comment_line :: "string \<Rightarrow> bool" where
  "comment_line l = (l \<noteq> [] \<and> hd l = CHR ''#'')"

text \<open>
  A line without a name: it holds a single byte (such as an empty line, which is its
  newline), or it starts with a separator, a comparator or a NUL byte.
\<close>

definition no_name :: "string \<Rightarrow> bool" where
  "no_name l = (length l = 1 \<or> hd l \<in> {NUL, CHR ''|'', CHR ''='', CHR ''<'', CHR ''>''})"

subsection \<open>Theorems: version range matcher\<close>

text \<open>
  C3. For every version string the matcher returns true when the bound is absent; when a
  bound is present it returns true exactly when the verdict of the three-way comparator
  on (version, bound value) is Less (-1) for LT, Less or Equal (-1 or 0) for LTE,
  Equal (0) for EQ, Greater (1) for GT, Greater or Equal (1 or 0) for GTE.
\<close>

theorem match_version_verdicts:
  "match_version cmp pv \<lparr>version = None, type = t\<rparr>
   \<and> match_version cmp pv \<lparr>version = Some b, type = LT\<rparr> = (cmp pv b = - 1)
   \<and> match_version cmp pv \<lparr>version = Some b, type = LTE\<rparr> = (cmp pv b = - 1 \<or> cmp pv b = 0)
   \<and> match_version cmp pv \<lparr>version = Some b, type = EQ\<rparr> = (cmp pv b = 0)
   \<and> match_version cmp pv \<lparr>version = Some b, type = GT\<rparr> = (cmp pv b = 1)
   \<and> match_version cmp pv \<lparr>version = Some b, type = GTE\<rparr> = (cmp pv b = 1 \<or> cmp pv b = 0)"
  by (auto simp: match_version_def Let_def EQ_def LT_def LTE_def GT_def GTE_def)

subsection \<open>Lemmas: advisory parser\<close>

text \<open>The same function with the recursive call evaluated once.\<close>

lemma strsep_code [code]:
  "strsep [] = ([], None)"
  "strsep (c # cs) =
     (if c = NUL then ([], None)
      else if c = CHR ''|'' then ([], Some cs)
      else (case strsep cs of (t, r) \<Rightarrow> (c # t, r)))"
  by (simp_all add: case_prod_beta)

lemma parse_pattern_loop_invariant:
  assumes run: "parse_pattern_loop pattern len s = Inr r" and init: "I s"
    and step: "\<And>s s1. I s \<Longrightarrow> fst s < len \<Longrightarrow> pp_step pattern len s = Inr s1 \<Longrightarrow> I s1"
  shows "\<exists>s'. I s' \<and> \<not> fst s' < len \<and> r = snd (snd (snd (snd s')))"
  using run init
proof (induction "len - fst s" arbitrary: s rule: less_induct)
  case less
  note unfold = parse_pattern_loop.simps[of pattern len s]
  show ?case
  proof (cases "fst s < len")
    case True
    from less.prems(1) True
    have c: "(case pp_step pattern len s of Inl err \<Rightarrow> Inl err
              | Inr s1 \<Rightarrow> parse_pattern_loop pattern len s1) = Inr r"
      by (simp only: unfold if_True)
    then obtain s1 where st: "pp_step pattern len s = Inr s1"
      and r: "parse_pattern_loop pattern len s1 = Inr r"
      by (cases "pp_step pattern len s") simp_all
    have I1: "I s1" by (rule step[OF less.prems(2) True st])
    obtain i x where s: "s = (i, x)" by (cases s)
    obtain j y where s1: "s1 = (j, y)" by (cases s1)
    from st s s1 have "i < j" by (auto dest: pp_step_advances)
    with True s s1 have "len - fst s1 < len - fst s" by simp
    from less.hyps[OF this r I1] show ?thesis .
  next
    case False
    with less.prems(1) have "r = snd (snd (snd (snd s)))"
      by (simp only: unfold if_False sum.inject)
    with less.prems(2) False show ?thesis by blast
  qed
qed

lemma parse_pattern_loop_total:
  assumes init: "I s"
    and step: "\<And>s s1. I s \<Longrightarrow> fst s < len \<Longrightarrow> pp_step pattern len s = Inr s1 \<Longrightarrow> I s1"
    and total: "\<And>s. I s \<Longrightarrow> fst s < len \<Longrightarrow> \<exists>s1. pp_step pattern len s = Inr s1"
  shows "\<exists>r. parse_pattern_loop pattern len s = Inr r"
  using init
proof (induction "len - fst s" arbitrary: s rule: less_induct)
  case less
  note unfold = parse_pattern_loop.simps[of pattern len s]
  show ?case
  proof (cases "fst s < len")
    case True
    from total[OF less.prems True] obtain s1 where st: "pp_step pattern len s = Inr s1" by blast
    have I1: "I s1" by (rule step[OF less.prems True st])
    obtain i x where s: "s = (i, x)" by (cases s)
    obtain j y where s1: "s1 = (j, y)" by (cases s1)
    from st s s1 have "i < j" by (auto dest: pp_step_advances)
    with True s s1 have "len - fst s1 < len - fst s" by simp
    from less.hyps[OF this I1] obtain r where "parse_pattern_loop pattern len s1 = Inr r" by blast
    with True st show ?thesis by (simp only: unfold if_True sum.case) blast
  next
    case False
    then show ?thesis by (simp only: unfold if_False) blast
  qed
qed




lemma pp_step_eq:
  assumes pk: "peek pattern i = Some c"
    and ty: "ty = fst (cmp_token c (lookahead pattern i))"
    and sk: "sk = snd (cmp_token c (lookahead pattern i))"
  shows "pp_step pattern len (i, st, dest, vr, ce) =
      (if ty \<noteq> 0 \<or> i = len - 1 then
         (case dest of
            None \<Rightarrow> Inl NullDeref
          | Some d \<Rightarrow>
              Inr (i + sk + 1, i + sk + 1, (if ty \<noteq> 0 then Some (version_field vr) else None),
                   (if ty \<noteq> 0 then V2 else vr),
                   store d (strndup (drop st pattern) (i - st))
                     (if ty \<noteq> 0 then set_type vr ty ce else ce)))
       else Inr (i + 1, st, dest, vr, ce))"
proof -
  have "pp_step pattern len (i, st, dest, vr, ce) =
      (if (if ty \<noteq> 0 then Some (version_field vr) else None) \<noteq> None \<or> i = len - 1 then
         (case dest of
            None \<Rightarrow> Inl NullDeref
          | Some d \<Rightarrow>
              Inr (i + sk + 1, i + sk + 1, (if ty \<noteq> 0 then Some (version_field vr) else None),
                   (if ty \<noteq> 0 then V2 else vr),
                   store d (strndup (drop st pattern) (i - st))
                     (if ty \<noteq> 0 then set_type vr ty ce else ce)))
       else Inr (i + 1, st, dest, (if ty \<noteq> 0 then V2 else vr),
                 (if ty \<noteq> 0 then set_type vr ty ce else ce)))"
    unfolding pp_step_def Let_def prod.case pk option.case lookahead_def[symmetric]
      ty[symmetric] sk[symmetric] ..
  then show ?thesis by (cases "ty = 0") auto
qed

lemma pp_step_cases:
  assumes a: "pp_step pattern len (i, st, dest, vr, ce) = Inr s1"
  obtains
    (wr) d ty sk where "dest = Some d" "ty \<noteq> 0 \<or> i = len - 1"
      "s1 = (i + sk + 1, i + sk + 1, (if ty \<noteq> 0 then Some (version_field vr) else None),
             (if ty \<noteq> 0 then V2 else vr),
             store d (strndup (drop st pattern) (i - st)) (if ty \<noteq> 0 then set_type vr ty ce else ce))"
  | (skip) "i \<noteq> len - 1" "s1 = (i + 1, st, dest, vr, ce)"
proof -
  from a obtain c where pk: "peek pattern i = Some c"
    by (cases "peek pattern i") (simp_all add: pp_step_def)
  define ty where "ty = fst (cmp_token c (lookahead pattern i))"
  define sk where "sk = snd (cmp_token c (lookahead pattern i))"
  note eq = pp_step_eq[OF pk ty_def sk_def, of len st dest vr ce]
  show thesis
  proof (cases "ty \<noteq> 0 \<or> i = len - 1")
    case True
    show thesis
    proof (cases dest)
      case None
      with a True eq show thesis by simp
    next
      case (Some d)
      with a True eq have "s1 = (i + sk + 1, i + sk + 1, (if ty \<noteq> 0 then Some (version_field vr) else None),
             (if ty \<noteq> 0 then V2 else vr),
             store d (strndup (drop st pattern) (i - st)) (if ty \<noteq> 0 then set_type vr ty ce else ce))"
        by simp
      with Some True show thesis by (rule wr[of d ty sk])
    qed
  next
    case False
    with a eq have "s1 = (i + 1, st, dest, vr, ce)" by simp
    with False show thesis by (intro skip) auto
  qed
qed




lemma c_pkgname_store: "d = F_pkgname \<or> c_pkgname ce \<noteq> None \<Longrightarrow> c_pkgname (store d x ce) \<noteq> None"
  by (auto simp: store_def split: field.splits)

lemma set_type_fields [simp]:
  "c_pkgname (set_type vr ty ce) = c_pkgname ce"
  "c_url (set_type vr ty ce) = c_url ce"
  "c_desc (set_type vr ty ce) = c_desc ce"
  by (auto simp: set_type_def split: vref.splits)

lemma store_fields [simp]:
  "c_url (store d x ce) = c_url ce"
  "c_desc (store d x ce) = c_desc ce"
  by (auto simp: store_def split: field.splits)


lemma length_zap [simp]: "length (zap m) = length m"
  by (induction m) auto


lemma NL_neq_NUL [simp]: "NL \<noteq> NUL" "NUL \<noteq> NL"
  by (simp_all add: NL_def NUL_def)





lemma columns_first:
  assumes "parse_pattern calloc_entry (zap line) n = Inr ce"
  shows "columns n (Some line) 0 calloc_entry = columns n (snd (strsep line)) 1 ce"
  using assms by (simp add: columns.simps Let_def)



lemma columns_end: "columns n None k ce = Inr ce"
  by (simp add: columns.simps)

lemma nl_free_url_desc [simp]:
  "nl_free (ce\<lparr>c_url := u\<rparr>) = nl_free ce" "nl_free (ce\<lparr>c_desc := d\<rparr>) = nl_free ce"
  by (simp_all add: nl_free_def)

subsection \<open>Theorems: advisory parser\<close>

text \<open>
  C7. The claim confines the comparator scan to the name field. \<open>parse_db\<close> passes the
  length of the whole line to \<open>parse_pattern\<close>, so the scan runs on into the URL and the
  description: on the line \<open>foo|http://x/?a=1|d\<close> the \<open>=\<close> of the URL becomes an EQ
  bound whose value is the rest of the line, although the name field holds no
  comparator.
\<close>

theorem parse_line_comparator_in_url:
  "parse_line (''foo|http://x/?a=1|d'' @ [NL]) =
     Inr (Some \<lparr>pkgname = ''foo'', v1 = \<lparr>version = Some ''1|d'', type = EQ\<rparr>,
          v2 = \<lparr>version = None, type = 0\<rparr>, url = Some ''http://x/?a=1'',
          desc = Some (''d'' @ [NL])\<rparr>)"
  by code_simp




lemma of_char_NUL [simp]: "of_char NUL = (0::nat)"
  by (simp add: NUL_def)

lemma of_char_eq_0_iff: "(of_char c = (0::nat)) = (c = NUL)"
proof
  assume "of_char c = (0::nat)"
  then have "of_char c = (of_char NUL :: nat)" by simp
  then show "c = NUL" by (simp only: of_char_eq_iff)
qed simp

lemma char_less_iff: "(c1 < c2) = ((of_char c1 :: nat) < of_char c2)"
  by (simp add: less_char_def)

lemma strncmp_lex:
  assumes "n \<le> length s2" "NUL \<notin> set (take n s2)"
  shows "(strncmp s1 s2 n = 0) = (take n s1 = take n s2)
       \<and> (strncmp s1 s2 n < 0) = (take n s1 < take n s2)"
  using assms
proof (induction n arbitrary: s1 s2)
  case 0
  then show ?case by simp
next
  case (Suc n)
  then obtain c2 r2 where s2: "s2 = c2 # r2" by (cases s2) auto
  with Suc.prems have c2: "c2 \<noteq> NUL" and n: "n \<le> length r2" and nul: "NUL \<notin> set (take n r2)"
    by auto
  from c2 have pos: "0 < (of_char c2 :: nat)" using of_char_eq_0_iff[of c2] by simp
  show ?case
  proof (cases s1)
    case Nil
    with s2 c2 pos show ?thesis by (simp add: first_byte_def)
  next
    case (Cons c1 r1)
    show ?thesis
    proof (cases "c1 = c2")
      case True
      with Cons s2 c2 Suc.IH[OF n nul, of r1] show ?thesis by (simp add: first_byte_def)
    next
      case False
      then have "(of_char c1 :: nat) \<noteq> of_char c2" by (simp only: of_char_eq_iff) simp
      with False Cons s2 show ?thesis
        by (auto simp: first_byte_def char_less_iff)
    qed
  qed
qed

lemma str_noglob_len_le: "str_noglob_len s \<le> length s"
  by (induction s) auto

lemma literal_prefix_no_NUL: "NUL \<notin> set (take (str_noglob_len s) s)"
  by (induction s) auto

lemma lex_split:
  fixes xs ys :: "'a::linorder list"
  shows "(xs < ys) = (take (min (length xs) (length ys)) xs < take (min (length xs) (length ys)) ys
            \<or> (take (min (length xs) (length ys)) xs = take (min (length xs) (length ys)) ys
                \<and> length xs < length ys))"
proof (induction xs arbitrary: ys)
  case Nil
  then show ?case by (cases ys) auto
next
  case (Cons x xs)
  show ?case
  proof (cases ys)
    case Nil
    then show ?thesis by simp
  next
    case (Cons y ys')
    with Cons.IH[of ys'] show ?thesis by auto
  qed
qed

lemma length_slot_key: "wf_slot x \<Longrightarrow> length (slot_key x) = noglob_len x"
  by (simp add: slot_key_def wf_slot_def str_noglob_len_le)

lemma compare_key:
  assumes a: "wf_slot a" and b: "wf_slot b"
  shows "(audit_entry_compare a b < 0) = (slot_key a < slot_key b)"
    and "(audit_entry_compare a b = 0) = (slot_key a = slot_key b)"
proof -
  let ?la = "noglob_len a" and ?lb = "noglob_len b"
  let ?pa = "pkgname (e a)" and ?pb = "pkgname (e b)"
  let ?m = "min ?la ?lb"
  have la: "length (slot_key a) = ?la" and lb: "length (slot_key b) = ?lb"
    using a b by (simp_all add: length_slot_key)
  have mlb: "?m \<le> length ?pb" using b str_noglob_len_le[of ?pb] by (simp add: wf_slot_def)
  have "set (take ?m ?pb) \<subseteq> set (take ?lb ?pb)" by (rule set_take_subset_set_take) simp
  with literal_prefix_no_NUL[of ?pb] b have nul: "NUL \<notin> set (take ?m ?pb)"
    by (auto simp: wf_slot_def)
  note sc = strncmp_lex[OF mlb nul, of ?pa]
  have ta: "take ?m ?pa = take ?m (slot_key a)" and tb: "take ?m ?pb = take ?m (slot_key b)"
    by (simp_all add: slot_key_def min_def)
  have min_if: "(if ?la < ?lb then ?la else ?lb) = ?m" by (simp add: min_def)
  have cmp: "audit_entry_compare a b =
      (if strncmp ?pa ?pb ?m = 0 then (if ?la < ?lb then - 1 else if ?lb < ?la then 1 else 0)
       else strncmp ?pa ?pb ?m)"
    unfolding audit_entry_compare_def Let_def min_if by simp
  have ls: "(slot_key a < slot_key b) = (take ?m (slot_key a) < take ?m (slot_key b)
            \<or> (take ?m (slot_key a) = take ?m (slot_key b) \<and> ?la < ?lb))"
    using lex_split[of "slot_key a" "slot_key b"] by (simp only: la lb)
  show "(audit_entry_compare a b < 0) = (slot_key a < slot_key b)"
    unfolding cmp ls using sc ta tb by auto
  have eq: "(slot_key a = slot_key b) = (take ?m (slot_key a) = take ?m (slot_key b) \<and> ?la = ?lb)"
  proof
    assume "slot_key a = slot_key b"
    with la lb show "take ?m (slot_key a) = take ?m (slot_key b) \<and> ?la = ?lb" by metis
  next
    assume h: "take ?m (slot_key a) = take ?m (slot_key b) \<and> ?la = ?lb"
    with la lb have "take ?m (slot_key a) = slot_key a" "take ?m (slot_key b) = slot_key b" by simp_all
    with h show "slot_key a = slot_key b" by simp
  qed
  show "(audit_entry_compare a b = 0) = (slot_key a = slot_key b)"
    unfolding cmp eq using sc ta tb by auto
qed

lemma compare_le_key:
  assumes "wf_slot a" "wf_slot b"
  shows "(audit_entry_compare a b \<le> 0) = (slot_key a \<le> slot_key b)"
  using compare_key[OF assms] by (auto simp: le_less)

lemma wf_init_slots: "list_all wf_slot (init_slots h)"
  by (simp add: init_slots_def list_all_iff wf_slot_def)

lemma map_e_init_slots: "map e (init_slots h) = h"
  by (simp add: init_slots_def comp_def)

lemma wf_sort_slots: "qsort_sorts qsort \<Longrightarrow> list_all wf_slot (sort_slots qsort h)"
proof -
  assume q: "qsort_sorts qsort"
  then have "mset (sort_slots qsort h) = mset (init_slots h)"
    by (simp add: qsort_sorts_def sort_slots_def)
  then have "set (sort_slots qsort h) = set (init_slots h)" by (rule mset_eq_setD)
  with wf_init_slots[of h] show ?thesis by (simp add: list_all_iff)
qed

lemma sorted_sort_slots:
  assumes q: "qsort_sorts qsort"
  shows "sorted (map slot_key (sort_slots qsort h))"
proof -
  from q wf_init_slots[of h]
  have s: "sorted_wrt (\<lambda>a b. audit_entry_compare a b \<le> 0) (sort_slots qsort h)"
    by (simp add: qsort_sorts_def sort_slots_def)
  have "sorted_wrt (\<lambda>a b. slot_key a \<le> slot_key b) (sort_slots qsort h)"
  proof (rule sorted_wrt_mono_rel[OF _ s])
    fix a b assume "a \<in> set (sort_slots qsort h)" "b \<in> set (sort_slots qsort h)"
      and c: "audit_entry_compare a b \<le> 0"
    with wf_sort_slots[OF q, of h] have "wf_slot a" "wf_slot b" by (simp_all add: list_all_iff)
    from compare_le_key[OF this] c show "slot_key a \<le> slot_key b" by simp
  qed
  then show ?thesis by (simp add: sorted_map)
qed

lemma sorted_contiguous:
  fixes ks :: "'a::linorder list"
  assumes "sorted ks" shows "contiguous ks"
  unfolding contiguous_def
proof (intro allI impI)
  fix i j k assume h: "i \<le> j \<and> j \<le> k \<and> k < length ks \<and> ks ! i = ks ! k"
  from h have ij: "i \<le> j" and jl: "j < length ks" and jk: "j \<le> k" and kl: "k < length ks" by auto
  have "ks ! i \<le> ks ! j" by (rule sorted_nth_mono[OF assms ij jl])
  moreover have "ks ! j \<le> ks ! k" by (rule sorted_nth_mono[OF assms jk kl])
  moreover from h have "ks ! i = ks ! k" by simp
  ultimately show "ks ! j = ks ! i" by simp
qed

lemma update_incr_maps:
  "map e (ret[b := (ret ! b)\<lparr>next_pfx_incr := t\<rparr>]) = map e ret"
  "map noglob_len (ret[b := (ret ! b)\<lparr>next_pfx_incr := t\<rparr>]) = map noglob_len ret"
proof -
  show "map e (ret[b := (ret ! b)\<lparr>next_pfx_incr := t\<rparr>]) = map e ret"
    by (cases "b < length ret") (simp_all add: map_update list_update_same_conv not_less list_update_beyond)
  show "map noglob_len (ret[b := (ret ! b)\<lparr>next_pfx_incr := t\<rparr>]) = map noglob_len ret"
    by (cases "b < length ret") (simp_all add: map_update list_update_same_conv not_less list_update_beyond)
qed

lemma map_fill:
  "map e (fill ret b t) = map e ret \<and> map noglob_len (fill ret b t) = map noglob_len ret"
proof (induction ret b t rule: fill.induct)
  case (1 ret b tofill)
  show ?case
  proof (cases "1 < tofill")
    case True
    with "1.IH" show ?thesis by (subst (1 2) fill.simps) (simp add: update_incr_maps)
  next
    case False
    then show ?thesis by (subst (1 2) fill.simps) simp
  qed
qed

lemma incr_loop_keeps:
  "incr_loop ret n t = Inr ret' \<Longrightarrow> map e ret' = map e ret \<and> map noglob_len ret' = map noglob_len ret"
proof (induction ret n t rule: incr_loop.induct)
  case (1 ret n tofill)
  note unfold = incr_loop.simps[of ret n tofill]
  show ?case
  proof (cases "length ret < n \<or> n = 0")
    case True
    then have "incr_loop ret n tofill = Inl OutOfBounds" by (subst unfold) simp
    with "1.prems" show ?thesis by simp
  next
    case b: False
    show ?thesis
    proof (cases "n = length ret")
      case True
      with b have "incr_loop ret n tofill = Inr ret" by (subst unfold) simp
      with "1.prems" show ?thesis by simp
    next
      case e: False
      show ?thesis
      proof (cases "noglob_len (ret ! (n - 1)) \<noteq> noglob_len (ret ! n)")
        case True
        show ?thesis
        proof (cases "1 < tofill \<and> n < tofill")
          case g: True
          with b e True have "incr_loop ret n tofill = Inl OutOfBounds" by (subst unfold) simp
          with "1.prems" show ?thesis by simp
        next
          case g: False
          with b e True
          have "incr_loop ret n tofill = incr_loop (fill ret (n - tofill) tofill) (Suc n) 1"
            by (subst unfold) auto
          with "1.prems" have r: "incr_loop (fill ret (n - tofill) tofill) (Suc n) 1 = Inr ret'" by simp
          from "1.IH"(1)[OF b e True g r] show ?thesis by (simp add: map_fill)
        qed
      next
        case d: False
        show ?thesis
        proof (cases "strcmp (pkgname (e (ret ! (n - 1)))) (pkgname (e (ret ! n))) = 0")
          case True
          with b e d have "incr_loop ret n tofill = incr_loop ret (Suc n) (Suc tofill)"
            by (subst unfold) simp
          with "1.prems" have "incr_loop ret (Suc n) (Suc tofill) = Inr ret'" by simp
          from "1.IH"(2)[OF b e d True this] show ?thesis .
        next
          case False
          with b e d have "incr_loop ret n tofill = incr_loop ret (Suc n) 1"
            by (subst unfold) simp
          with "1.prems" have "incr_loop ret (Suc n) 1 = Inr ret'" by simp
          from "1.IH"(3)[OF b e d False this] show ?thesis .
        qed
      qed
    qed
  qed
qed

lemma slot_key_update [simp]: "slot_key (x\<lparr>next_pfx_incr := t\<rparr>) = slot_key x"
  by (simp add: slot_key_def)

lemma wf_slot_update [simp]: "wf_slot (x\<lparr>next_pfx_incr := t\<rparr>) = wf_slot x"
  by (simp add: wf_slot_def)

lemma slot_key_nth_update:
  "slot_key (ret[b := (ret ! b)\<lparr>next_pfx_incr := t\<rparr>] ! k) = slot_key (ret ! k)"
  by (cases "b < length ret") (simp_all add: nth_list_update not_less list_update_beyond)

lemma group_safeD:
  assumes "group_safe ret" "j < length ret"
  shows "1 \<le> next_pfx_incr (ret ! j)" "j + next_pfx_incr (ret ! j) \<le> length ret"
    "j \<le> k \<Longrightarrow> k < j + next_pfx_incr (ret ! j) \<Longrightarrow> slot_key (ret ! k) = slot_key (ret ! j)"
  using assms unfolding group_safe_def by blast+

lemma group_safe_update:
  assumes gs: "group_safe ret" and t: "1 \<le> t" and bt: "b + t \<le> length ret"
    and keys: "\<And>k. b \<le> k \<Longrightarrow> k < b + t \<Longrightarrow> slot_key (ret ! k) = slot_key (ret ! b)"
  shows "group_safe (ret[b := (ret ! b)\<lparr>next_pfx_incr := t\<rparr>])"
  unfolding group_safe_def
proof (intro allI impI conjI)
  let ?r = "ret[b := (ret ! b)\<lparr>next_pfx_incr := t\<rparr>]"
  from t bt have b: "b < length ret" by simp
  have incr: "\<And>j. j < length ret \<Longrightarrow>
      next_pfx_incr (?r ! j) = (if j = b then t else next_pfx_incr (ret ! j))"
    by (simp add: nth_list_update)
  fix j assume "j < length ?r"
  then have j: "j < length ret" by simp
  show "1 \<le> next_pfx_incr (?r ! j)"
    using incr[OF j] t group_safeD(1)[OF gs j] by (cases "j = b") simp_all
  show "j + next_pfx_incr (?r ! j) \<le> length ?r"
    using incr[OF j] bt group_safeD(2)[OF gs j] by (cases "j = b") simp_all
  fix k assume k: "j \<le> k \<and> k < j + next_pfx_incr (?r ! j)"
  have "slot_key (ret ! k) = slot_key (ret ! j)"
  proof (cases "j = b")
    case True
    with k incr[OF j] have "b \<le> k" "k < b + t" by simp_all
    from keys[OF this] True show ?thesis by simp
  next
    case False
    with k incr[OF j] have "j \<le> k" "k < j + next_pfx_incr (ret ! j)" by simp_all
    then show ?thesis by (rule group_safeD(3)[OF gs j])
  qed
  then show "slot_key (?r ! k) = slot_key (?r ! j)" by (simp only: slot_key_nth_update)
qed

lemma group_safe_fill:
  assumes "group_safe ret" "b + t \<le> length ret"
    and "\<And>k. b \<le> k \<Longrightarrow> k < b + t \<Longrightarrow> slot_key (ret ! k) = slot_key (ret ! b)"
  shows "group_safe (fill ret b t)"
  using assms
proof (induction ret b t rule: fill.induct)
  case (1 ret b tofill)
  show ?case
  proof (cases "1 < tofill")
    case True
    let ?r = "ret[b := (ret ! b)\<lparr>next_pfx_incr := tofill\<rparr>]"
    from True have t1: "1 \<le> tofill" by simp
    have gs: "group_safe ?r"
      by (rule group_safe_update[OF "1.prems"(1) t1 "1.prems"(2)]) (rule "1.prems"(3))
    have len: "Suc b + (tofill - 1) \<le> length ?r" using True "1.prems"(2) by simp
    have kb: "slot_key (ret ! Suc b) = slot_key (ret ! b)"
      by (rule "1.prems"(3)) (use True in simp_all)
    have keys: "\<And>k. Suc b \<le> k \<Longrightarrow> k < Suc b + (tofill - 1) \<Longrightarrow> slot_key (?r ! k) = slot_key (?r ! Suc b)"
    proof -
      fix k assume k: "Suc b \<le> k" "k < Suc b + (tofill - 1)"
      have "slot_key (ret ! k) = slot_key (ret ! b)"
        by (rule "1.prems"(3)) (use k True in simp_all)
      then have "slot_key (ret ! k) = slot_key (ret ! Suc b)" by (simp only: kb)
      then show "slot_key (?r ! k) = slot_key (?r ! Suc b)" by (simp only: slot_key_nth_update)
    qed
    have "group_safe (fill ?r (Suc b) (tofill - 1))"
      by (rule "1.IH"[OF True gs len]) (rule keys)
    with True show ?thesis by (subst fill.simps) simp
  next
    case False
    with "1.prems"(1) show ?thesis by (subst fill.simps) simp
  qed
qed

lemma nth_fill_key: "slot_key (fill ret b t ! k) = slot_key (ret ! k)"
proof (induction ret b t rule: fill.induct)
  case (1 ret b tofill)
  show ?case
  proof (cases "1 < tofill")
    case True
    with "1.IH" show ?thesis by (subst fill.simps) (simp add: slot_key_nth_update)
  next
    case False
    then show ?thesis by (subst fill.simps) simp
  qed
qed

lemma wf_fill: "list_all wf_slot (fill ret b t) = list_all wf_slot ret"
proof (induction ret b t rule: fill.induct)
  case (1 ret b tofill)
  have u: "list_all wf_slot (ret[b := (ret ! b)\<lparr>next_pfx_incr := tofill\<rparr>]) = list_all wf_slot ret"
    by (cases "b < length ret")
       (auto simp: list_all_length nth_list_update not_less list_update_beyond)
  show ?case
  proof (cases "1 < tofill")
    case True
    with "1.IH" u show ?thesis by (subst fill.simps) simp
  next
    case False
    then show ?thesis by (subst fill.simps) simp
  qed
qed

lemma first_byte_NUL_literal: "first_byte s = NUL \<Longrightarrow> str_noglob_len s = 0"
  by (cases s) (simp_all add: first_byte_def)

lemma strcmp_literal_prefix:
  "strcmp a b = 0 \<Longrightarrow> str_noglob_len a = str_noglob_len b
      \<and> take (str_noglob_len a) a = take (str_noglob_len b) b"
proof (induction a arbitrary: b)
  case Nil
  then have "(of_char (first_byte b) :: nat) = 0" by simp
  then have "first_byte b = NUL" by (simp only: of_char_eq_0_iff)
  then show ?case by (simp add: first_byte_NUL_literal)
next
  case (Cons c a)
  show ?case
  proof (cases "c = first_byte b")
    case False
    then have "(of_char c :: nat) \<noteq> of_char (first_byte b)" by (simp only: of_char_eq_iff) simp
    with False Cons.prems show ?thesis by simp
  next
    case True
    show ?thesis
    proof (cases "c = NUL")
      case n: True
      with True have "str_noglob_len b = 0" by (simp add: first_byte_NUL_literal)
      with n show ?thesis by simp
    next
      case n: False
      with True obtain b' where b: "b = c # b'" by (cases b) (auto simp: first_byte_def)
      with True n Cons.prems have "strcmp a b' = 0" by simp
      from Cons.IH[OF this] b show ?thesis by auto
    qed
  qed
qed

lemma strcmp_slot_key:
  assumes "wf_slot x" "wf_slot y" "strcmp (pkgname (e x)) (pkgname (e y)) = 0"
  shows "slot_key x = slot_key y"
  using assms strcmp_literal_prefix[of "pkgname (e x)" "pkgname (e y)"]
  by (auto simp: wf_slot_def slot_key_def)

lemma incr_loop_safe:
  assumes "1 \<le> n" "n \<le> length ret" "tofill \<le> n" "list_all wf_slot ret" "group_safe ret"
    and "\<forall>k. n - tofill \<le> k \<and> k < n \<longrightarrow> slot_key (ret ! k) = slot_key (ret ! (n - 1))"
  shows "\<exists>ret'. incr_loop ret n tofill = Inr ret' \<and> group_safe ret'"
  using assms
proof (induction ret n tofill rule: incr_loop.induct)
  case (1 ret n tofill)
  note unfold = incr_loop.simps[of ret n tofill]
  note n1 = "1.prems"(1) and nl = "1.prems"(2) and tn = "1.prems"(3) and wf = "1.prems"(4)
    and gs = "1.prems"(5) and run = "1.prems"(6)
  from n1 nl have b: "\<not> (length ret < n \<or> n = 0)" by simp
  show ?case
  proof (cases "n = length ret")
    case True
    with b have "incr_loop ret n tofill = Inr ret" by (subst unfold) simp
    with gs show ?thesis by simp
  next
    case ne: False
    with nl have nlt: "n < length ret" by simp
    show ?thesis
    proof (cases "noglob_len (ret ! (n - 1)) \<noteq> noglob_len (ret ! n)")
      case True
      from tn have g: "\<not> (1 < tofill \<and> n < tofill)" by simp
      let ?r = "fill ret (n - tofill) tofill"
      from b ne True g have eq: "incr_loop ret n tofill = incr_loop ?r (Suc n) 1"
        by (subst unfold) auto
      have keys: "\<And>k. n - tofill \<le> k \<Longrightarrow> k < n - tofill + tofill \<Longrightarrow>
          slot_key (ret ! k) = slot_key (ret ! (n - tofill))"
      proof -
        fix k assume k: "n - tofill \<le> k" "k < n - tofill + tofill"
        with tn have kn: "k < n" by simp
        with k run have a: "slot_key (ret ! k) = slot_key (ret ! (n - 1))" by blast
        from kn k have "n - tofill \<le> n - tofill \<and> n - tofill < n" by simp
        with run have "slot_key (ret ! (n - tofill)) = slot_key (ret ! (n - 1))" by blast
        with a show "slot_key (ret ! k) = slot_key (ret ! (n - tofill))" by simp
      qed
      have gs': "group_safe ?r"
        by (rule group_safe_fill[OF gs]) (use tn nl in simp, rule keys)
      have "\<exists>ret'. incr_loop ?r (Suc n) 1 = Inr ret' \<and> group_safe ret'"
      proof (rule "1.IH"(1)[OF b ne True g])
        show "1 \<le> Suc n" by simp
        show "Suc n \<le> length ?r" using nlt by simp
        show "1 \<le> Suc n" by simp
        show "list_all wf_slot ?r" using wf by (simp add: wf_fill)
        show "group_safe ?r" by (rule gs')
        show "\<forall>k. Suc n - 1 \<le> k \<and> k < Suc n \<longrightarrow> slot_key (?r ! k) = slot_key (?r ! (Suc n - 1))"
          by (auto simp: le_less_Suc_eq)
      qed
      with eq show ?thesis by simp
    next
      case d: False
      show ?thesis
      proof (cases "strcmp (pkgname (e (ret ! (n - 1)))) (pkgname (e (ret ! n))) = 0")
        case True
        with b ne d have eq: "incr_loop ret n tofill = incr_loop ret (Suc n) (Suc tofill)"
          by (subst unfold) simp
        from wf nlt n1 have "wf_slot (ret ! (n - 1))" "wf_slot (ret ! n)"
          by (simp_all add: list_all_length)
        from strcmp_slot_key[OF this True] have kn: "slot_key (ret ! (n - 1)) = slot_key (ret ! n)" .
        have "\<exists>ret'. incr_loop ret (Suc n) (Suc tofill) = Inr ret' \<and> group_safe ret'"
        proof (rule "1.IH"(2)[OF b ne d True])
          show "1 \<le> Suc n" by simp
          show "Suc n \<le> length ret" using nlt by simp
          show "Suc tofill \<le> Suc n" using tn by simp
          show "list_all wf_slot ret" by (rule wf)
          show "group_safe ret" by (rule gs)
          show "\<forall>k. Suc n - Suc tofill \<le> k \<and> k < Suc n \<longrightarrow> slot_key (ret ! k) = slot_key (ret ! (Suc n - 1))"
          proof (intro allI impI)
            fix k assume k: "Suc n - Suc tofill \<le> k \<and> k < Suc n"
            show "slot_key (ret ! k) = slot_key (ret ! (Suc n - 1))"
            proof (cases "k = n")
              case True
              then show ?thesis by simp
            next
              case False
              with k have "n - tofill \<le> k \<and> k < n" by simp
              with run have "slot_key (ret ! k) = slot_key (ret ! (n - 1))" by blast
              with kn show ?thesis by simp
            qed
          qed
        qed
        with eq show ?thesis by simp
      next
        case False
        with b ne d have eq: "incr_loop ret n tofill = incr_loop ret (Suc n) 1"
          by (subst unfold) simp
        have "\<exists>ret'. incr_loop ret (Suc n) 1 = Inr ret' \<and> group_safe ret'"
        proof (rule "1.IH"(3)[OF b ne d False])
          show "1 \<le> Suc n" by simp
          show "Suc n \<le> length ret" using nlt by simp
          show "1 \<le> Suc n" by simp
          show "list_all wf_slot ret" by (rule wf)
          show "group_safe ret" by (rule gs)
          show "\<forall>k. Suc n - 1 \<le> k \<and> k < Suc n \<longrightarrow> slot_key (ret ! k) = slot_key (ret ! (Suc n - 1))"
            by (auto simp: le_less_Suc_eq)
        qed
        with eq show ?thesis by simp
      qed
    qed
  qed
qed

lemma set_sort_slots: "qsort_sorts qsort \<Longrightarrow> set (sort_slots qsort h) = set (init_slots h)"
proof -
  assume "qsort_sorts qsort"
  then have "mset (sort_slots qsort h) = mset (init_slots h)"
    by (simp add: qsort_sorts_def sort_slots_def)
  then show ?thesis by (rule mset_eq_setD)
qed

lemma length_sort_slots: "qsort_sorts qsort \<Longrightarrow> length (sort_slots qsort h) = length h"
proof -
  assume "qsort_sorts qsort"
  then have "mset (sort_slots qsort h) = mset (init_slots h)"
    by (simp add: qsort_sorts_def sort_slots_def)
  then have "length (sort_slots qsort h) = length (init_slots h)" by (rule mset_eq_length)
  then show ?thesis by (simp add: init_slots_def)
qed

lemma mset_e_sort_slots: "qsort_sorts qsort \<Longrightarrow> mset (map e (sort_slots qsort h)) = mset h"
proof -
  assume "qsort_sorts qsort"
  then have "mset (sort_slots qsort h) = mset (init_slots h)"
    by (simp add: qsort_sorts_def sort_slots_def)
  then have "mset (map e (sort_slots qsort h)) = mset (map e (init_slots h))"
    by (simp only: mset_map)
  then show ?thesis by (simp add: map_e_init_slots)
qed

lemma group_safe_sort_slots:
  assumes "qsort_sorts qsort" shows "group_safe (sort_slots qsort h)"
proof -
  have "\<forall>x\<in>set (sort_slots qsort h). next_pfx_incr x = 1"
    unfolding set_sort_slots[OF assms] by (auto simp: init_slots_def)
  then have "\<forall>j<length (sort_slots qsort h). next_pfx_incr (sort_slots qsort h ! j) = 1"
    by simp
  then show ?thesis unfolding group_safe_def by (auto simp: le_less_Suc_eq)
qed

lemma slot_key_maps:
  assumes "map e a = map e b" "map noglob_len a = map noglob_len b"
  shows "map slot_key a = map slot_key b"
proof (rule nth_equalityI)
  from assms(1) have "length (map e a) = length (map e b)" by simp
  then show l: "length (map slot_key a) = length (map slot_key b)" by simp
  fix i assume "i < length (map slot_key a)"
  with l have i: "i < length a" "i < length b" by simp_all
  from assms i have "e (a ! i) = e (b ! i)" "noglob_len (a ! i) = noglob_len (b ! i)"
    by (metis nth_map)+
  with i show "map slot_key a ! i = map slot_key b ! i" by (simp add: slot_key_def)
qed

lemma preprocess_db_total:
  assumes q: "qsort_sorts qsort" and ne: "h \<noteq> []"
  shows "\<exists>ret. preprocess_db char_signed qsort h
              = Inr (ret, first_byte_loop char_signed ret 1 0 (replicate 256 0))
           \<and> group_safe ret \<and> map e ret = map e (sort_slots qsort h)
           \<and> map slot_key ret = map slot_key (sort_slots qsort h)"
proof -
  let ?s = "sort_slots qsort h"
  have "\<exists>ret'. incr_loop ?s 1 0 = Inr ret' \<and> group_safe ret'"
  proof (rule incr_loop_safe)
    show "1 \<le> (1::nat)" by simp
    show "1 \<le> length ?s" using ne by (cases h) (simp_all add: length_sort_slots[OF q])
    show "0 \<le> (1::nat)" by simp
    show "list_all wf_slot ?s" by (rule wf_sort_slots[OF q])
    show "group_safe ?s" by (rule group_safe_sort_slots[OF q])
    show "\<forall>k. 1 - 0 \<le> k \<and> k < 1 \<longrightarrow> slot_key (?s ! k) = slot_key (?s ! (1 - 1))" by simp
  qed
  then obtain ret where r: "incr_loop ?s 1 0 = Inr ret" and gs: "group_safe ret" by blast
  from incr_loop_keeps[OF r] have m: "map e ret = map e ?s" "map noglob_len ret = map noglob_len ?s"
    by simp_all
  from r gs m slot_key_maps[OF m] show ?thesis by (simp add: preprocess_db_def)
qed

lemma preprocess_db_result:
  assumes "preprocess_db char_signed qsort h = Inr (ret, tab)"
  shows "incr_loop (sort_slots qsort h) 1 0 = Inr ret"
    and "tab = first_byte_loop char_signed ret 1 0 (replicate 256 0)"
  using assms by (auto simp: preprocess_db_def split: sum.splits)

lemma preprocess_db_empty: "qsort_sorts qsort \<Longrightarrow> preprocess_db char_signed qsort [] = Inl OutOfBounds"
proof -
  assume q: "qsort_sorts qsort"
  from length_sort_slots[OF q, of "[]"] have "sort_slots qsort [] = []" by simp
  then show ?thesis by (simp add: preprocess_db_def incr_loop.simps)
qed

lemma mset_insert_cmp: "mset (insert_cmp c x ys) = add_mset x (mset ys)"
  by (induction ys) auto

lemma mset_insertion_qsort: "mset (insertion_qsort c xs) = mset xs"
  by (induction xs) (simp_all add: insertion_qsort_def mset_insert_cmp)

lemma set_insert_cmp: "set (insert_cmp c x ys) = insert x (set ys)"
  by (induction ys) auto

lemma sorted_insert_cmp:
  assumes "wf_slot x" "list_all wf_slot ys"
    and "sorted_wrt (\<lambda>a b. audit_entry_compare a b \<le> 0) ys"
  shows "sorted_wrt (\<lambda>a b. audit_entry_compare a b \<le> 0) (insert_cmp audit_entry_compare x ys)"
  using assms
proof (induction ys)
  case Nil
  then show ?case by simp
next
  case (Cons y ys)
  from Cons.prems have wy: "wf_slot y" and wys: "list_all wf_slot ys"
    and sy: "\<forall>z\<in>set ys. audit_entry_compare y z \<le> 0"
    and sys: "sorted_wrt (\<lambda>a b. audit_entry_compare a b \<le> 0) ys" by simp_all
  show ?case
  proof (cases "audit_entry_compare x y \<le> 0")
    case True
    have "\<forall>z\<in>set ys. audit_entry_compare x z \<le> 0"
    proof
      fix z assume z: "z \<in> set ys"
      with wys have wz: "wf_slot z" by (simp add: list_all_iff)
      from True have "slot_key x \<le> slot_key y" by (simp add: compare_le_key[OF Cons.prems(1) wy])
      moreover from sy z have "audit_entry_compare y z \<le> 0" by blast
      then have "slot_key y \<le> slot_key z" by (simp add: compare_le_key[OF wy wz])
      ultimately have "slot_key x \<le> slot_key z" by (rule order_trans)
      then show "audit_entry_compare x z \<le> 0"
        by (simp add: compare_le_key[OF Cons.prems(1) wz])
    qed
    with True Cons.prems show ?thesis by simp
  next
    case False
    then have "\<not> slot_key x \<le> slot_key y" by (simp add: compare_le_key[OF Cons.prems(1) wy])
    then have yx: "audit_entry_compare y x \<le> 0" by (simp add: compare_le_key[OF wy Cons.prems(1)])
    from Cons.IH[OF Cons.prems(1) wys sys] False sy yx show ?thesis
      by (simp add: set_insert_cmp)
  qed
qed

lemma wf_insertion_qsort: "list_all wf_slot (insertion_qsort c xs) = list_all wf_slot xs"
proof -
  have "set (insertion_qsort c xs) = set xs" by (rule mset_eq_setD[OF mset_insertion_qsort])
  then show ?thesis by (simp add: list_all_iff)
qed

lemma insertion_qsort_Cons: "insertion_qsort c (x # xs) = insert_cmp c x (insertion_qsort c xs)"
  by (simp add: insertion_qsort_def)

lemma sorted_insertion_qsort:
  "list_all wf_slot xs \<Longrightarrow>
   sorted_wrt (\<lambda>a b. audit_entry_compare a b \<le> 0) (insertion_qsort audit_entry_compare xs)"
proof (induction xs)
  case Nil
  then show ?case by (simp add: insertion_qsort_def)
next
  case (Cons x xs)
  then show ?case
    by (simp add: insertion_qsort_Cons sorted_insert_cmp wf_insertion_qsort)
qed

lemma insertion_qsort_sorts: "qsort_sorts insertion_qsort"
  by (simp add: qsort_sorts_def mset_insertion_qsort sorted_insertion_qsort)

lemma filter_insert_cmp:
  assumes "wf_slot x" "list_all wf_slot ys"
  shows "filter (\<lambda>z. slot_key z = k) (insert_cmp audit_entry_compare x ys)
       = (if slot_key x = k then x # filter (\<lambda>z. slot_key z = k) ys
          else filter (\<lambda>z. slot_key z = k) ys)"
  using assms
proof (induction ys)
  case Nil
  then show ?case by simp
next
  case (Cons y ys)
  from Cons.prems have wy: "wf_slot y" and wys: "list_all wf_slot ys" by simp_all
  show ?case
  proof (cases "audit_entry_compare x y \<le> 0")
    case True
    then show ?thesis by simp
  next
    case False
    then have "\<not> slot_key x \<le> slot_key y" by (simp add: compare_le_key[OF Cons.prems(1) wy])
    then have "slot_key y \<noteq> slot_key x" by auto
    with False Cons.IH[OF Cons.prems(1) wys] show ?thesis by auto
  qed
qed

lemma insertion_qsort_stable: "qsort_stable insertion_qsort"
  unfolding qsort_stable_def
proof (intro allI impI)
  fix xs :: "audit_entry_sorted list" and k
  assume "list_all wf_slot xs"
  then show "filter (\<lambda>x. slot_key x = k) (insertion_qsort audit_entry_compare xs)
           = filter (\<lambda>x. slot_key x = k) xs"
  proof (induction xs)
    case Nil
    then show ?case by (simp add: insertion_qsort_def)
  next
    case (Cons x xs)
    then show ?case
      by (simp add: insertion_qsort_Cons filter_insert_cmp wf_insertion_qsort)
  qed
qed

lemma parse_lines_rev:
  "parse_lines ls h0 = Inr h \<Longrightarrow> h = rev (file_entries ls) @ h0"
proof (induction ls arbitrary: h0)
  case Nil
  then show ?case by simp
next
  case (Cons line ls)
  show ?case
  proof (cases "length line = 0")
    case True
    with Cons.prems show ?thesis by simp
  next
    case False
    show ?thesis
    proof (cases "parse_line line")
      case (Inl err)
      with False Cons.prems show ?thesis by simp
    next
      case (Inr r)
      show ?thesis
      proof (cases r)
        case None
        with Inr False Cons.prems have "parse_lines ls h0 = Inr h" by simp
        from Cons.IH[OF this] None Inr False show ?thesis by simp
      next
        case (Some ae)
        with Inr False Cons.prems have "parse_lines ls (ae # h0) = Inr h" by simp
        from Cons.IH[OF this] Some Inr False show ?thesis by simp
      qed
    qed
  qed
qed

lemma filter_key_init_slots:
  "map e (filter (\<lambda>x. slot_key x = k) (init_slots h)) = filter (\<lambda>ae. literal_prefix (pkgname ae) = k) h"
  by (induction h) (simp_all add: init_slots_def slot_key_def literal_prefix_def)

text \<open>
  C8, amended. When \<open>qsort\<close> is stable, the entries with one literal prefix appear in
  the built index in the reverse of the order of their lines in the file: \<open>parse_db\<close>
  inserts every entry at the head of the list and the array is filled in list order.
\<close>

theorem equal_keys_reverse_file_order:
  assumes "qsort_stable qsort" and "parse_db (Inr ls) [] = Inr h"
  shows "map e (filter (\<lambda>x. slot_key x = k) (sort_slots qsort h))
       = rev (filter (\<lambda>ae. literal_prefix (pkgname ae) = k) (file_entries ls))"
proof -
  from assms(2) have "parse_lines ls [] = Inr h" by (simp add: parse_db_def)
  from parse_lines_rev[OF this] have h: "h = rev (file_entries ls)" by simp
  from assms(1) wf_init_slots[of h]
  have "filter (\<lambda>x. slot_key x = k) (sort_slots qsort h) = filter (\<lambda>x. slot_key x = k) (init_slots h)"
    by (simp add: qsort_stable_def sort_slots_def)
  then have "map e (filter (\<lambda>x. slot_key x = k) (sort_slots qsort h))
       = filter (\<lambda>ae. literal_prefix (pkgname ae) = k) h"
    by (simp add: filter_key_init_slots)
  also have "\<dots> = rev (filter (\<lambda>ae. literal_prefix (pkgname ae) = k) (file_entries ls))"
    by (subst h) (simp add: rev_filter)
  finally show ?thesis .
qed

lemma parse_two_advisories:
  "parse_db (Inr [''foo<1|u|first'' @ [NL], ''foo<2|u|second'' @ [NL]]) [] = Inr [adv_second, adv_first]"
  by code_simp

text \<open>
  C8, as stated, fails: two advisory lines with the same sort key come out of a stable
  sort in the order second, first.
\<close>

theorem equal_keys_not_in_file_order:
  "parse_db (Inr [''foo<1|u|first'' @ [NL], ''foo<2|u|second'' @ [NL]]) [] = Inr [adv_second, adv_first]
   \<and> map e (sort_slots insertion_qsort [adv_second, adv_first]) = [adv_second, adv_first]
   \<and> map e (fst (projr (preprocess_db True insertion_qsort [adv_second, adv_first])))
       = [adv_second, adv_first]
   \<and> slot_key (sort_slots insertion_qsort [adv_second, adv_first] ! 0)
       = slot_key (sort_slots insertion_qsort [adv_second, adv_first] ! 1)"
  by code_simp

text \<open>Insertion sort on the two lines of the counterexample.\<close>

theorem equal_keys_reverse_file_order_witness:
  "qsort_stable insertion_qsort
   \<and> parse_db (Inr [''foo<1|u|first'' @ [NL], ''foo<2|u|second'' @ [NL]]) [] = Inr [adv_second, adv_first]
   \<and> map e (filter (\<lambda>x. slot_key x = ''foo'') (sort_slots insertion_qsort [adv_second, adv_first]))
       = rev (filter (\<lambda>ae. literal_prefix (pkgname ae) = ''foo'')
               (file_entries [''foo<1|u|first'' @ [NL], ''foo<2|u|second'' @ [NL]]))"
  using equal_keys_reverse_file_order[OF insertion_qsort_stable parse_two_advisories, of "''foo''"]
    insertion_qsort_stable parse_two_advisories
  by blast

text \<open>
  C5. The claim has every entry of a run hold the distance to the first entry of the
  next run. The loop of lines 385-399 leaves 1, 1 for the two advisories of \<open>foo\<close>
  (the claim wants 2, 1) and 1, 2, 1, 1 for the names a, a, a, bb (the claim wants
  3, 2, 1, 1).
\<close>

theorem run_increments_not_written:
  "map next_pfx_incr (fst (projr (preprocess_db True insertion_qsort [adv_second, adv_first]))) = [1, 1]
   \<and> map slot_key (fst (projr (preprocess_db True insertion_qsort [adv_second, adv_first])))
       = [''foo'', ''foo'']
   \<and> map next_pfx_incr (fst (projr (preprocess_db True insertion_qsort
         [name_only ''a'', name_only ''a'', name_only ''a'', name_only ''bb''])))
       = [1, 2, 1, 1]"
  by code_simp

lemma takeWhile_mono_split:
  assumes "\<And>x. P x \<Longrightarrow> Q x"
  shows "takeWhile Q xs = takeWhile P xs @ takeWhile Q (drop (length (takeWhile P xs)) xs)"
  by (induction xs) (auto simp: assms)

lemma skip_lt_takeWhile:
  "i \<le> length ret \<Longrightarrow>
   skip_lt sg ret n i
     = i + length (takeWhile (\<lambda>x. size_t_of_char sg (first_byte (pkgname (e x))) < n) (drop i ret))"
proof (induction sg ret n i rule: skip_lt.induct)
  case (1 sg ret n i)
  note unfold = skip_lt.simps[of sg ret n i]
  show ?case
  proof (cases "i < length ret")
    case True
    then have d: "drop i ret = ret ! i # drop (Suc i) ret" by (simp add: Cons_nth_drop_Suc)
    show ?thesis
    proof (cases "size_t_of_char sg (first_byte (pkgname (e (ret ! i)))) < n")
      case c: True
      with True have "skip_lt sg ret n i = skip_lt sg ret n (Suc i)" by (subst unfold) simp
      also from True have "Suc i \<le> length ret" by simp
      from "1.IH"[OF _ this] True c
      have "skip_lt sg ret n (Suc i) = Suc i + length (takeWhile (\<lambda>x. size_t_of_char sg (first_byte (pkgname (e x))) < n) (drop (Suc i) ret))"
        by simp
      finally show ?thesis using c by (simp add: d)
    next
      case c: False
      with True have "skip_lt sg ret n i = i" by (subst unfold) simp
      with c show ?thesis by (simp add: d)
    qed
  next
    case False
    then have "skip_lt sg ret n i = i" by (subst unfold) simp
    with False show ?thesis by simp
  qed
qed

lemma below_byte_fun:
  "below_byte sg n = (\<lambda>x. size_t_of_char sg (first_byte (pkgname (e x))) < n)"
  by (rule ext) (simp add: below_byte_def)

lemma skip_lt_next:
  assumes m: "m \<le> n" and i: "i = length (takeWhile (below_byte sg m) ret)"
  shows "skip_lt sg ret n i = length (takeWhile (below_byte sg n) ret)"
proof -
  have le: "i \<le> length ret" unfolding i by (rule length_takeWhile_le)
  have "takeWhile (below_byte sg n) ret
      = takeWhile (below_byte sg m) ret @ takeWhile (below_byte sg n) (drop i ret)"
    unfolding i by (rule takeWhile_mono_split) (use m in \<open>simp add: below_byte_def\<close>)
  then have "length (takeWhile (below_byte sg n) ret)
      = i + length (takeWhile (below_byte sg n) (drop i ret))"
    by (simp add: i)
  with skip_lt_takeWhile[OF le, of sg n] show ?thesis by (simp add: below_byte_fun)
qed

lemma first_byte_loop_table:
  assumes "1 \<le> n" "n \<le> 256" "length tab = 256"
    and "i = length (takeWhile (below_byte sg (n - 1)) ret)"
    and "\<forall>b<n. tab ! b = length (takeWhile (below_byte sg b) ret)"
  shows "length (first_byte_loop sg ret n i tab) = 256
       \<and> (\<forall>b<256. first_byte_loop sg ret n i tab ! b = length (takeWhile (below_byte sg b) ret))"
  using assms
proof (induction sg ret n i tab rule: first_byte_loop.induct)
  case (1 sg ret n i tab)
  note unfold = first_byte_loop.simps[of sg ret n i tab]
  show ?case
  proof (cases "n < 256")
    case True
    let ?i = "skip_lt sg ret n i"
    have i': "?i = length (takeWhile (below_byte sg n) ret)"
      by (rule skip_lt_next[OF _ "1.prems"(4)]) simp
    have eq: "first_byte_loop sg ret n i tab = first_byte_loop sg ret (Suc n) ?i (tab[n := ?i])"
      using True by (subst unfold) simp
    have "length (first_byte_loop sg ret (Suc n) ?i (tab[n := ?i])) = 256
       \<and> (\<forall>b<256. first_byte_loop sg ret (Suc n) ?i (tab[n := ?i]) ! b
              = length (takeWhile (below_byte sg b) ret))"
    proof (rule "1.IH"[OF True])
      show "1 \<le> Suc n" by simp
      show "Suc n \<le> 256" using True by simp
      show "length (tab[n := ?i]) = 256" using "1.prems"(3) by simp
      show "?i = length (takeWhile (below_byte sg (Suc n - 1)) ret)" using i' by simp
      show "\<forall>b<Suc n. tab[n := ?i] ! b = length (takeWhile (below_byte sg b) ret)"
      proof (intro allI impI)
        fix b assume b: "b < Suc n"
        show "tab[n := ?i] ! b = length (takeWhile (below_byte sg b) ret)"
        proof (cases "b = n")
          case True
          with \<open>n < 256\<close> "1.prems"(3) i' show ?thesis by simp
        next
          case False
          with b "1.prems"(5) show ?thesis by simp
        qed
      qed
    qed
    with eq show ?thesis by simp
  next
    case False
    with "1.prems"(2) have n: "n = 256" by simp
    from False have "first_byte_loop sg ret n i tab = tab" by (subst unfold) simp
    with "1.prems"(3,5) n show ?thesis by simp
  qed
qed

lemma first_byte_table:
  "length (first_byte_loop sg ret 1 0 (replicate 256 0)) = 256
   \<and> (\<forall>b<256. first_byte_loop sg ret 1 0 (replicate 256 0) ! b
          = length (takeWhile (below_byte sg b) ret))"
proof (rule first_byte_loop_table)
  show "1 \<le> (1::nat)" "(1::nat) \<le> 256" "length (replicate 256 (0::nat)) = 256" by simp_all
  have z: "takeWhile (below_byte sg 0) ret = []"
    by (cases ret) (simp_all add: below_byte_def)
  show "0 = length (takeWhile (below_byte sg (1 - 1)) ret)" by (simp add: z)
  show "\<forall>b<1. replicate 256 (0::nat) ! b = length (takeWhile (below_byte sg b) ret)"
    by (simp add: z)
qed

lemma takeWhile_length_mono:
  assumes "\<And>x. P x \<Longrightarrow> Q x"
  shows "length (takeWhile P xs) \<le> length (takeWhile Q xs)"
  by (subst takeWhile_mono_split[of P Q xs]) (simp_all add: assms)

lemma first_byte_literal:
  "0 < str_noglob_len s \<Longrightarrow> first_byte s = hd (literal_prefix s)"
  by (cases s) (simp_all add: first_byte_def literal_prefix_def split: if_splits)


text \<open>
  What the loop of lines 403-408 computes: entry \<open>b\<close> of the table is the number of
  leading sorted entries for which \<open>(size_t)pkgname[0] < b\<close>.
\<close>

lemma first_byte_table_contents:
  assumes "preprocess_db char_signed qsort h = Inr (ret, tab)"
  shows "length tab = 256
     \<and> (\<forall>b<256. tab ! b = length (takeWhile (below_byte char_signed b) ret))
     \<and> (\<forall>b c. b \<le> c \<and> c < 256 \<longrightarrow> tab ! b \<le> tab ! c)
     \<and> ((\<forall>x\<in>set ret. 0 < str_noglob_len (pkgname (e x))
            \<and> (char_signed \<longrightarrow> of_char (first_byte (pkgname (e x))) < (128::nat)))
          \<longrightarrow> (\<forall>b<256. tab ! b
                 = length (takeWhile (\<lambda>x. of_char (hd (literal_prefix (pkgname (e x)))) < b) ret)))"
proof -
  from preprocess_db_result(2)[OF assms] first_byte_table[of char_signed ret]
  have len: "length tab = 256"
    and tb: "\<forall>b<256. tab ! b = length (takeWhile (below_byte char_signed b) ret)" by simp_all
  have mono: "\<forall>b c. b \<le> c \<and> c < 256 \<longrightarrow> tab ! b \<le> tab ! c"
  proof (intro allI impI)
    fix b c :: nat assume bc: "b \<le> c \<and> c < 256"
    have "length (takeWhile (below_byte char_signed b) ret)
        \<le> length (takeWhile (below_byte char_signed c) ret)"
      by (rule takeWhile_length_mono) (use bc in \<open>simp add: below_byte_def\<close>)
    with tb bc show "tab ! b \<le> tab ! c" by simp
  qed
  have lit: "(\<forall>x\<in>set ret. 0 < str_noglob_len (pkgname (e x))
            \<and> (char_signed \<longrightarrow> of_char (first_byte (pkgname (e x))) < (128::nat)))
          \<longrightarrow> (\<forall>b<256. tab ! b
                 = length (takeWhile (\<lambda>x. of_char (hd (literal_prefix (pkgname (e x)))) < b) ret))"
  proof (intro impI allI)
    fix b :: nat
    assume a: "\<forall>x\<in>set ret. 0 < str_noglob_len (pkgname (e x))
            \<and> (char_signed \<longrightarrow> of_char (first_byte (pkgname (e x))) < (128::nat))"
      and b: "b < 256"
    have "takeWhile (below_byte char_signed b) ret
        = takeWhile (\<lambda>x. of_char (hd (literal_prefix (pkgname (e x)))) < b) ret"
    proof (rule takeWhile_cong[OF refl])
      fix x assume "x \<in> set ret"
      with a have p: "0 < str_noglob_len (pkgname (e x))"
        and s: "char_signed \<longrightarrow> of_char (first_byte (pkgname (e x))) < (128::nat)" by auto
      from s have "size_t_of_char char_signed (first_byte (pkgname (e x)))
          = of_char (first_byte (pkgname (e x)))"
        by (auto simp: size_t_of_char_def)
      with first_byte_literal[OF p]
      show "below_byte char_signed b x = (of_char (hd (literal_prefix (pkgname (e x)))) < b)"
        by (simp add: below_byte_def)
    qed
    with tb b show "tab ! b
        = length (takeWhile (\<lambda>x. of_char (hd (literal_prefix (pkgname (e x)))) < b) ret)"
      by simp
  qed
  from len tb mono lit show ?thesis by blast
qed

lemma examine_result:
  assumes "a + cnt \<le> length ret" "i \<le> cnt"
  shows "examine fnm cmp ret name ver a i cnt acc
       = Inr (acc @ map e (filter (reported fnm cmp name ver) (take (cnt - i) (drop (a + i) ret))))"
  using assms
proof (induction "cnt - i" arbitrary: i acc)
  case 0
  then have "i = cnt" by simp
  then show ?case by (subst examine.simps) simp
next
  case (Suc d)
  then have lt: "i < cnt" and d: "d = cnt - Suc i" by simp_all
  with Suc.prems have il: "a + i < length ret" by simp
  then have dr: "drop (a + i) ret = ret ! (a + i) # drop (a + Suc i) ret"
    by (simp add: Cons_nth_drop_Suc)
  from lt have tk: "cnt - i = Suc (cnt - Suc i)" by simp
  have ih: "\<And>acc. examine fnm cmp ret name ver a (Suc i) cnt acc
       = Inr (acc @ map e (filter (reported fnm cmp name ver) (take (cnt - Suc i) (drop (a + Suc i) ret))))"
    by (rule Suc.hyps(1)[OF d Suc.prems(1)]) (use lt in simp)
  show ?case
    using lt il by (subst examine.simps) (simp add: ih dr tk reported_def)
qed

lemma lex_take_append:
  fixes P K :: "'a::linorder list"
  shows "P \<le> K \<Longrightarrow> P \<le> take (length P) (K @ r)"
proof (induction P arbitrary: K)
  case Nil
  then show ?case by simp
next
  case (Cons p P)
  then show ?case by (cases K) auto
qed

lemma strncmp_name:
  assumes "wf_slot s"
  shows "(strncmp name (pkgname (e s)) (noglob_len s) = 0) = (take (noglob_len s) name = slot_key s)"
    and "(strncmp name (pkgname (e s)) (noglob_len s) < 0) = (take (noglob_len s) name < slot_key s)"
proof -
  from assms have n: "noglob_len s \<le> length (pkgname (e s))"
    and z: "NUL \<notin> set (take (noglob_len s) (pkgname (e s)))"
    using str_noglob_len_le[of "pkgname (e s)"] literal_prefix_no_NUL[of "pkgname (e s)"]
    by (simp_all add: wf_slot_def)
  from strncmp_lex[OF n z, of name]
  show "(strncmp name (pkgname (e s)) (noglob_len s) = 0) = (take (noglob_len s) name = slot_key s)"
    and "(strncmp name (pkgname (e s)) (noglob_len s) < 0) = (take (noglob_len s) name < slot_key s)"
    by (simp_all add: slot_key_def)
qed

lemma reported_prefix:
  assumes "fnmatch_literal fnm" "wf_slot x" "reported fnm cmp name ver x"
  shows "prefix (slot_key x) name"
proof -
  from assms(3) have "fnm (pkgname (e x)) name = 0" by (simp add: reported_def)
  with assms(1) have "prefix (literal_prefix (pkgname (e x))) name"
    unfolding fnmatch_literal_def by blast
  with assms(2) show ?thesis by (simp add: literal_prefix_def slot_key_def wf_slot_def)
qed

lemma prefix_take: "prefix K name \<Longrightarrow> take (length K) name = K"
  by (auto simp: prefix_def)

text \<open>An entry with the key of a skipped run does not match.\<close>

lemma greater_not_reported:
  assumes lit: "fnmatch_literal fnm" and ws: "wf_slot s" and wx: "wf_slot x"
    and key: "slot_key x = slot_key s"
    and c: "strncmp name (pkgname (e s)) (noglob_len s) \<noteq> 0"
  shows "\<not> reported fnm cmp name ver x"
proof
  assume "reported fnm cmp name ver x"
  from reported_prefix[OF lit wx this] key have "prefix (slot_key s) name" by simp
  from prefix_take[OF this] have "take (noglob_len s) name = slot_key s"
    by (simp add: length_slot_key[OF ws])
  with strncmp_name(1)[OF ws, of name] c show False by simp
qed

text \<open>After an entry whose prefix is above the name, no entry with a larger key matches.\<close>

lemma less_not_reported:
  assumes lit: "fnmatch_literal fnm" and ws: "wf_slot s" and wx: "wf_slot x"
    and key: "slot_key s \<le> slot_key x"
    and c: "strncmp name (pkgname (e s)) (noglob_len s) < 0"
  shows "\<not> reported fnm cmp name ver x"
proof
  assume "reported fnm cmp name ver x"
  from reported_prefix[OF lit wx this] obtain r where name: "name = slot_key x @ r"
    by (auto simp: prefix_def)
  from lex_take_append[OF key, of r] have "slot_key s \<le> take (noglob_len s) name"
    by (simp add: name length_slot_key[OF ws])
  moreover from c strncmp_name(2)[OF ws, of name] have "take (noglob_len s) name < slot_key s"
    by simp
  ultimately show False by simp
qed

lemma set_take_drop_nth:
  assumes "x \<in> set (take n (drop a xs))"
  obtains j where "j < n" "a + j < length xs" "x = xs ! (a + j)"
proof -
  from assms obtain j where j: "j < length (take n (drop a xs))" and x: "x = take n (drop a xs) ! j"
    by (auto simp: in_set_conv_nth)
  from j have jn: "j < n" and jl: "a + j < length xs" by auto
  from jl have "a + j \<le> length xs" by simp
  with j x have "x = xs ! (a + j)" by (simp add: nth_drop)
  with jn jl show thesis by (rule that)
qed

lemma scan_result:
  assumes lit: "fnmatch_literal fnm" and wf: "list_all wf_slot ret"
    and srt: "sorted (map slot_key ret)" and gs: "group_safe ret" and a: "a \<le> length ret"
  shows "scan fnm cmp ret name ver a acc
       = Some (Inr (acc @ map e (filter (reported fnm cmp name ver) (drop a ret))))"
  using a
proof (induction "length ret - a" arbitrary: a acc rule: less_induct)
  case less
  note unfold = scan.simps[of fnm cmp ret name ver a acc]
  show ?case
  proof (cases "a = length ret")
    case True
    then show ?thesis by (subst unfold) simp
  next
    case False
    with less.prems have al: "a < length ret" by simp
    let ?s = "ret ! a"
    let ?n = "next_pfx_incr ?s"
    let ?c = "strncmp name (pkgname (e ?s)) (noglob_len ?s)"
    let ?R = "reported fnm cmp name ver"
    from group_safeD[OF gs al] have n1: "1 \<le> ?n" and nl: "a + ?n \<le> length ret"
      and keys: "\<And>k. a \<le> k \<Longrightarrow> k < a + ?n \<Longrightarrow> slot_key (ret ! k) = slot_key ?s" by blast+
    from wf al have ws: "wf_slot ?s" by (simp add: list_all_length)
    have split: "drop a ret = take ?n (drop a ret) @ drop (a + ?n) ret"
      by (simp add: add.commute[of a] flip: drop_drop)
    have fsplit: "filter ?R (drop a ret)
        = filter ?R (take ?n (drop a ret)) @ filter ?R (drop (a + ?n) ret)"
      using arg_cong[OF split, of "filter ?R"] by (simp only: filter_append)
    have ih: "\<And>acc. scan fnm cmp ret name ver (a + ?n) acc
        = Some (Inr (acc @ map e (filter ?R (drop (a + ?n) ret))))"
      by (rule less.hyps) (use n1 nl al in simp_all)
    show ?thesis
    proof (cases "0 < ?c")
      case True
      have "\<forall>x\<in>set (take ?n (drop a ret)). \<not> ?R x"
      proof
        fix x assume "x \<in> set (take ?n (drop a ret))"
        then obtain j where j: "j < ?n" "a + j < length ret" "x = ret ! (a + j)"
          by (rule set_take_drop_nth)
        from wf j have wx: "wf_slot x" by (simp add: list_all_length)
        from keys[of "a + j"] j have "slot_key x = slot_key ?s" by simp
        from greater_not_reported[OF lit ws wx this] True show "\<not> ?R x" by simp
      qed
      then have "filter ?R (take ?n (drop a ret)) = []" by (simp add: filter_empty_conv)
      then have f: "filter ?R (drop a ret) = filter ?R (drop (a + ?n) ret)"
        by (simp add: fsplit)
      from al True have "scan fnm cmp ret name ver a acc = scan fnm cmp ret name ver (a + ?n) acc"
        by (subst unfold) simp
      with ih f show ?thesis by simp
    next
      case nc: False
      show ?thesis
      proof (cases "?c < 0")
        case True
        have "\<forall>x\<in>set (drop a ret). \<not> ?R x"
        proof
          fix x assume "x \<in> set (drop a ret)"
          then have "x \<in> set (take (length ret) (drop a ret))" by simp
          then obtain j where j: "a + j < length ret" "x = ret ! (a + j)"
            by (rule set_take_drop_nth)
          from wf j have wx: "wf_slot x" by (simp add: list_all_length)
          have "map slot_key ret ! a \<le> map slot_key ret ! (a + j)"
            by (rule sorted_nth_mono[OF srt]) (use j in simp_all)
          with al j have "slot_key ?s \<le> slot_key x" by simp
          from less_not_reported[OF lit ws wx this True] show "\<not> ?R x" .
        qed
        then have "filter ?R (drop a ret) = []" by (simp add: filter_empty_conv)
        moreover from al nc True have "scan fnm cmp ret name ver a acc = Some (Inr acc)"
          by (subst unfold) simp
        ultimately show ?thesis by simp
      next
        case False
        have ex: "examine fnm cmp ret name ver a 0 ?n acc
            = Inr (acc @ map e (filter ?R (take ?n (drop a ret))))"
          using examine_result[OF nl, of 0 fnm cmp name ver acc] by simp
        from al nc False ex
        have "scan fnm cmp ret name ver a acc
            = scan fnm cmp ret name ver (a + ?n) (acc @ map e (filter ?R (take ?n (drop a ret))))"
          by (subst unfold) simp
        also have "\<dots> = Some (Inr ((acc @ map e (filter ?R (take ?n (drop a ret))))
                      @ map e (filter ?R (drop (a + ?n) ret))))"
          by (rule ih)
        also have "(acc @ map e (filter ?R (take ?n (drop a ret)))) @ map e (filter ?R (drop (a + ?n) ret))
            = acc @ map e (filter ?R (drop a ret))"
          by (simp add: fsplit)
        finally show ?thesis .
      qed
    qed
  qed
qed

lemma wf_slot_maps:
  assumes "map e a = map e b" "map noglob_len a = map noglob_len b"
  shows "list_all wf_slot a = list_all wf_slot b"
proof -
  from assms(1) have l: "length a = length b" by (rule map_eq_imp_length_eq)
  have "\<And>i. i < length a \<Longrightarrow> wf_slot (a ! i) = wf_slot (b ! i)"
  proof -
    fix i assume i: "i < length a"
    with l assms have "e (a ! i) = e (b ! i)" "noglob_len (a ! i) = noglob_len (b ! i)"
      by (metis nth_map)+
    then show "wf_slot (a ! i) = wf_slot (b ! i)" by (simp add: wf_slot_def)
  qed
  with l show ?thesis by (simp add: list_all_length)
qed

lemma preprocess_db_props:
  assumes q: "qsort_sorts qsort" and pd: "preprocess_db char_signed qsort h = Inr (ret, tab)"
  shows "group_safe ret" "list_all wf_slot ret" "sorted (map slot_key ret)"
    "mset (map e ret) = mset h" "h \<noteq> []"
proof -
  show ne: "h \<noteq> []"
  proof
    assume "h = []"
    with preprocess_db_empty[OF q, of char_signed] pd show False by simp
  qed
  from preprocess_db_total[OF q ne, of char_signed] pd
  have gs: "group_safe ret" and m: "map e ret = map e (sort_slots qsort h)"
    and k: "map slot_key ret = map slot_key (sort_slots qsort h)" by auto
  show "group_safe ret" by (rule gs)
  from incr_loop_keeps[OF preprocess_db_result(1)[OF pd]]
  have "list_all wf_slot ret = list_all wf_slot (sort_slots qsort h)"
    by (intro wf_slot_maps) simp_all
  with wf_sort_slots[OF q, of h] show "list_all wf_slot ret" by simp
  from k sorted_sort_slots[OF q, of h] show "sorted (map slot_key ret)" by simp
  from m mset_e_sort_slots[OF q, of h] show "mset (map e ret) = mset h" by simp
qed

lemma is_vulnerable_result:
  assumes q: "qsort_sorts qsort" and lit: "fnmatch_literal fnm"
    and pd: "preprocess_db char_signed qsort h = Inr (ret, tab)"
    and k: "size_t_of_char char_signed (first_byte name) < 256"
  shows "is_vulnerable char_signed fnm cmp (ret, tab) (name, ver)
       = Some (Inr (map e (filter (reported fnm cmp name ver)
           (dropWhile (below_byte char_signed (size_t_of_char char_signed (first_byte name))) ret))))"
proof -
  let ?k = "size_t_of_char char_signed (first_byte name)"
  let ?P = "below_byte char_signed ?k"
  from preprocess_db_result(2)[OF pd] first_byte_table[of char_signed ret] k
  have len: "length tab = 256" and tk: "tab ! ?k = length (takeWhile ?P ret)" by simp_all
  have le: "length (takeWhile ?P ret) \<le> length ret" by (rule length_takeWhile_le)
  have dr: "drop (length (takeWhile ?P ret)) ret = dropWhile ?P ret"
    by (rule dropWhile_eq_drop[symmetric])
  note props = preprocess_db_props[OF q pd]
  from scan_result[OF lit props(2,3,1) le, of cmp name ver "[]"] len k tk dr
  show ?thesis by (simp add: is_vulnerable_def)
qed

lemma str_noglob_len_spec:
  "str_noglob_len s = length (glob_free_prefix s) \<and> take (str_noglob_len s) s = glob_free_prefix s"
  by (induction s) (auto simp: glob_free_prefix_def glob_metachar_def)

lemma wf_slot_entry_key: "wf_slot x \<Longrightarrow> slot_key x = entry_key x"
  using str_noglob_len_spec[of "pkgname (e x)"]
  by (auto simp: wf_slot_def slot_key_def entry_key_def)

lemma wf_slots_entry_keys: "list_all wf_slot xs \<Longrightarrow> map slot_key xs = map entry_key xs"
  by (simp add: list_all_iff wf_slot_entry_key)

lemma wf_slots_noglob_len:
  "list_all wf_slot xs \<Longrightarrow> \<forall>x\<in>set xs. noglob_len x = length (entry_key x)"
  by (simp add: list_all_iff wf_slot_def entry_key_def str_noglob_len_spec)

text \<open>
  C4. For every list of parsed entries the array that \<open>qsort\<close> leaves at line 373 holds
  the entries of the list, each with the length of its literal prefix, sorted ascending
  by the literal prefix, and entries with the same literal prefix are contiguous.
  Whenever \<open>preprocess_db\<close> returns an index, its array has these properties too: it
  holds the same entries in the same order with the same prefix lengths. \<open>qsort\<close> is
  assumed to return a permutation sorted by the comparator.
\<close>

theorem index_sorted_contiguous:
  assumes "qsort_sorts qsort"
  shows "mset (map e (sort_slots qsort h)) = mset h
     \<and> (\<forall>x\<in>set (sort_slots qsort h). noglob_len x = length (entry_key x))
     \<and> sorted (map entry_key (sort_slots qsort h))
     \<and> contiguous (map entry_key (sort_slots qsort h))
     \<and> (\<forall>ret tab. preprocess_db char_signed qsort h = Inr (ret, tab) \<longrightarrow>
           map e ret = map e (sort_slots qsort h)
           \<and> map noglob_len ret = map noglob_len (sort_slots qsort h)
           \<and> mset (map e ret) = mset h
           \<and> (\<forall>x\<in>set ret. noglob_len x = length (entry_key x))
           \<and> sorted (map entry_key ret)
           \<and> contiguous (map entry_key ret))"
proof -
  let ?s = "sort_slots qsort h"
  have wf: "list_all wf_slot ?s" by (rule wf_sort_slots[OF assms])
  have m: "mset (map e ?s) = mset h" by (rule mset_e_sort_slots[OF assms])
  have n: "\<forall>x\<in>set ?s. noglob_len x = length (entry_key x)" by (rule wf_slots_noglob_len[OF wf])
  have s: "sorted (map entry_key ?s)"
    using sorted_sort_slots[OF assms, of h] wf_slots_entry_keys[OF wf] by simp
  then have c: "contiguous (map entry_key ?s)" by (rule sorted_contiguous)
  have idx: "\<forall>ret tab. preprocess_db char_signed qsort h = Inr (ret, tab) \<longrightarrow>
           map e ret = map e ?s \<and> map noglob_len ret = map noglob_len ?s
           \<and> mset (map e ret) = mset h
           \<and> (\<forall>x\<in>set ret. noglob_len x = length (entry_key x))
           \<and> sorted (map entry_key ret) \<and> contiguous (map entry_key ret)"
  proof (intro allI impI)
    fix ret tab assume pd: "preprocess_db char_signed qsort h = Inr (ret, tab)"
    from incr_loop_keeps[OF preprocess_db_result(1)[OF pd]]
    have k: "map e ret = map e ?s" "map noglob_len ret = map noglob_len ?s" by simp_all
    note props = preprocess_db_props[OF assms pd]
    have s': "sorted (map entry_key ret)"
      using props(3) wf_slots_entry_keys[OF props(2)] by simp
    then have "contiguous (map entry_key ret)" by (rule sorted_contiguous)
    with k props(4) wf_slots_noglob_len[OF props(2)] s'
    show "map e ret = map e ?s \<and> map noglob_len ret = map noglob_len ?s
           \<and> mset (map e ret) = mset h
           \<and> (\<forall>x\<in>set ret. noglob_len x = length (entry_key x))
           \<and> sorted (map entry_key ret) \<and> contiguous (map entry_key ret)"
      by blast
  qed
  from m n s c idx show ?thesis by blast
qed

text \<open>
  Insertion sort on the patterns \<open>foo\<close>, \<open>bar*\<close>, \<open>foo\<close>: the index is built and its keys
  are \<open>bar\<close>, \<open>foo\<close>, \<open>foo\<close>.
\<close>

theorem index_sorted_contiguous_witness:
  "qsort_sorts insertion_qsort
   \<and> (\<exists>ret tab. preprocess_db True insertion_qsort
                   [name_only ''foo'', name_only ''bar*'', name_only ''foo''] = Inr (ret, tab)
         \<and> mset (map e ret) = mset [name_only ''foo'', name_only ''bar*'', name_only ''foo'']
         \<and> (\<forall>x\<in>set ret. noglob_len x = length (entry_key x))
         \<and> sorted (map entry_key ret) \<and> contiguous (map entry_key ret)
         \<and> map entry_key ret = [''bar'', ''foo'', ''foo''])"
proof -
  let ?h = "[name_only ''foo'', name_only ''bar*'', name_only ''foo'']"
  have "?h \<noteq> []" by simp
  from preprocess_db_total[OF insertion_qsort_sorts this, of True]
  obtain ret tab where r: "preprocess_db True insertion_qsort ?h = Inr (ret, tab)" by blast
  have "fst (projr (preprocess_db True insertion_qsort ?h)) = ret" by (simp add: r)
  moreover have "map entry_key (fst (projr (preprocess_db True insertion_qsort ?h)))
      = [''bar'', ''foo'', ''foo'']" by code_simp
  ultimately have k: "map entry_key ret = [''bar'', ''foo'', ''foo'']" by simp
  note t = index_sorted_contiguous[OF insertion_qsort_sorts, of ?h True]
  note i = t[THEN conjunct2, THEN conjunct2, THEN conjunct2, THEN conjunct2,
      THEN spec, THEN spec, THEN mp, OF r]
  have p1: "mset (map e ret) = mset ?h"
    by (rule i[THEN conjunct2, THEN conjunct2, THEN conjunct1])
  have p2: "\<forall>x\<in>set ret. noglob_len x = length (entry_key x)"
    by (rule i[THEN conjunct2, THEN conjunct2, THEN conjunct2, THEN conjunct1])
  have p3: "sorted (map entry_key ret)"
    by (rule i[THEN conjunct2, THEN conjunct2, THEN conjunct2, THEN conjunct2, THEN conjunct1])
  have p4: "contiguous (map entry_key ret)"
    by (rule i[THEN conjunct2, THEN conjunct2, THEN conjunct2, THEN conjunct2, THEN conjunct2])
  note p = p1 p2 p3 p4
  show ?thesis
    by (intro conjI exI[of _ ret] exI[of _ tab]) (rule insertion_qsort_sorts r p k)+
qed

subsection \<open>Theorems: vulnerability query on the built index\<close>











text \<open>
  The same line with its terminating newline, as \<open>getline\<close> returns every line of a
  file but an unterminated last one: the description is stored with the newline.
\<close>

lemma parse_heartbleed_newline:
  "parse_db (Inr [heartbleed_line @ [NL]]) []
     = Inr [heartbleed_adv\<lparr>desc := Some (''heartbleed'' @ [NL])\<rparr>]"
  by code_simp

text \<open>
  C1. The claim has every advisory whose pattern matches the name and whose bounds hold
  collected, none skipped by the first-byte scan. The jump through
  \<open>audit_entry_first_byte_idx\<close> (line 453) skips the sorted entries whose pattern starts
  with a byte below the first byte of the package name, and a pattern that starts with a
  glob character is among them although it can match: the advisory \<open>*foo\<close> has no
  bounds and matches the package name \<open>zfoo\<close>, and the query on the index built from it
  reports nothing, for every version, whatever \<open>fnmatch\<close> and the comparator answer
  (neither is called), with a signed and with an unsigned \<open>char\<close>.
\<close>

theorem glob_pattern_skipped:
  "parse_db (Inr [''*foo|u|d'' @ [NL]]) [] = Inr [star_foo]
   \<and> match_version cmp ver (v1 star_foo) \<and> match_version cmp ver (v2 star_foo)
   \<and> fnmatch_fragment (pkgname star_foo) ''zfoo'' = 0
   \<and> is_vulnerable False fnm cmp
         (projr (preprocess_db False insertion_qsort [star_foo])) (''zfoo'', ver) = Some (Inr [])
   \<and> is_vulnerable True fnm cmp
         (projr (preprocess_db True insertion_qsort [star_foo])) (''zfoo'', ver) = Some (Inr [])"
  by code_simp

subsection \<open>Theorems: failure modes of the parser\<close>

lemma unat_succ8: "unat (k::8 word) < 255 \<Longrightarrow> unat (k + 1) = Suc (unat k)"
  by (simp add: unat_word_ariths)

lemma cmp_token_none: "(fst (cmp_token c c1) = 0) = (c \<noteq> CHR ''='' \<and> c \<noteq> CHR ''<'' \<and> c \<noteq> CHR ''>'')"
  by (simp add: cmp_token_def Let_def EQ_def LT_def LTE_def GT_def GTE_def)

lemma pp_step_live_total:
  assumes "pp_live len s" "fst s < len" "len \<le> Suc (length pattern)"
  shows "\<exists>s1. pp_step pattern len s = Inr s1"
proof -
  obtain i st dest vr ce where s: "s = (i, st, dest, vr, ce)" by (cases s)
  from assms(1) s have "dest \<noteq> None \<or> len \<le> i" unfolding pp_live_def by simp
  with assms(2) s obtain d where d: "dest = Some d" by auto
  from assms(2,3) s have "i \<le> length pattern" by simp
  then obtain c where pk: "peek pattern i = Some c" unfolding peek_def by (cases "i < length pattern") auto
  note eq = pp_step_eq[OF pk refl refl, of len st dest vr ce]
  show ?thesis
  proof (cases "fst (cmp_token c (lookahead pattern i)) \<noteq> 0 \<or> i = len - 1")
    case True
    then show ?thesis unfolding s eq by (simp add: d)
  next
    case False
    then show ?thesis unfolding s eq by simp
  qed
qed

lemma pp_step_live:
  assumes "pp_live len s" "fst s < len" "pp_step pattern len s = Inr s1"
  shows "pp_live len s1"
proof -
  obtain i st dest vr ce where s: "s = (i, st, dest, vr, ce)" by (cases s)
  from assms(1) s have inv: "dest \<noteq> None \<or> len \<le> i" "dest = Some F_pkgname \<or> c_pkgname ce \<noteq> None"
    by (auto simp: pp_live_def)
  from assms(2) s have ilt: "i < len" by simp
  from assms(3) s have "pp_step pattern len (i, st, dest, vr, ce) = Inr s1" by simp
  then show ?thesis
  proof (cases rule: pp_step_cases)
    case (wr d ty sk)
    have b: "c_pkgname (store d (strndup (drop st pattern) (i - st)) (if ty \<noteq> 0 then set_type vr ty ce else ce)) \<noteq> None"
      using inv(2) wr(1) by (intro c_pkgname_store) auto
    have c: "ty = 0 \<longrightarrow> len \<le> i + sk + 1" using wr(2) ilt by auto
    show ?thesis unfolding wr(3) pp_live_def using b c
      by (simp add: version_field_def split: vref.splits)
  next
    case skip
    with inv ilt show ?thesis by (auto simp: pp_live_def)
  qed
qed

lemma parse_pattern_live:
  assumes "0 < len" "len \<le> Suc (length pattern)"
  shows "\<exists>ce1. parse_pattern ce pattern len = Inr ce1 \<and> c_pkgname ce1 \<noteq> None"
proof -
  let ?s0 = "(0, 0, Some F_pkgname, V1, ce)"
  have init: "pp_live len ?s0" using assms(1) by (simp add: pp_live_def)
  have step: "\<And>s s1. pp_live len s \<Longrightarrow> fst s < len \<Longrightarrow> pp_step pattern len s = Inr s1 \<Longrightarrow> pp_live len s1"
    by (rule pp_step_live)
  have total: "\<And>s. pp_live len s \<Longrightarrow> fst s < len \<Longrightarrow> \<exists>s1. pp_step pattern len s = Inr s1"
    by (rule pp_step_live_total[OF _ _ assms(2)])
  have "\<exists>r. parse_pattern_loop pattern len ?s0 = Inr r"
    apply (rule parse_pattern_loop_total[where I = "pp_live len"])
      apply (rule init)
     apply (rule step; assumption)
    apply (rule total; assumption)
    done
  then obtain r where r: "parse_pattern_loop pattern len ?s0 = Inr r" by blast
  have "\<exists>s'. pp_live len s' \<and> \<not> fst s' < len \<and> r = snd (snd (snd (snd s')))"
    apply (rule parse_pattern_loop_invariant[where I = "pp_live len", OF r])
     apply (rule init)
    apply (rule step; assumption)
    done
  then obtain s' where s': "pp_live len s'" "\<not> fst s' < len" "r = snd (snd (snd (snd s')))" by blast
  obtain i st dest vr ce2 where t: "s' = (i, st, dest, vr, ce2)" by (cases s')
  from s' t have "c_pkgname ce2 \<noteq> None" by (auto simp: pp_live_def)
  with r s'(3) t show ?thesis by (simp add: parse_pattern_def)
qed

lemma pp_step_not_fatal: "pp_step pattern len s \<noteq> Inl (EPKG_FATAL n)"
proof -
  obtain i st dest vr ce where s: "s = (i, st, dest, vr, ce)" by (cases s)
  show ?thesis
  proof (cases "peek pattern i")
    case None
    then show ?thesis unfolding s by (simp add: pp_step_def)
  next
    case (Some c)
    note eq = pp_step_eq[OF Some refl refl, of len st dest vr ce]
    show ?thesis unfolding s eq by (simp split: option.splits)
  qed
qed

lemma parse_pattern_loop_not_fatal: "parse_pattern_loop pattern len s \<noteq> Inl (EPKG_FATAL n)"
proof (induction "len - fst s" arbitrary: s rule: less_induct)
  case less
  note unfold = parse_pattern_loop.simps[of pattern len s]
  show ?case
  proof (cases "fst s < len")
    case True
    show ?thesis
    proof (cases "pp_step pattern len s")
      case (Inl err)
      with pp_step_not_fatal[of pattern len s n] have "err \<noteq> EPKG_FATAL n" by simp
      with True Inl show ?thesis by (simp only: unfold if_True sum.case) simp
    next
      case (Inr s1)
      obtain i x where s: "s = (i, x)" by (cases s)
      obtain j y where s1: "s1 = (j, y)" by (cases s1)
      from Inr s s1 have "i < j" by (auto dest: pp_step_advances)
      with True s s1 have "len - fst s1 < len - fst s" by simp
      from less.hyps[OF this] True Inr show ?thesis by (simp add: unfold)
    qed
  next
    case False
    then show ?thesis by (simp only: unfold if_False) simp
  qed
qed

lemma strsep_count:
  "snd (strsep mem) = Some r \<Longrightarrow> count_list mem (CHR ''|'') = Suc (count_list r (CHR ''|''))"
  by (induction mem) (auto split: if_splits)

lemma columns_not_fatal: "columns n (Some mem) k ce \<noteq> Inl (EPKG_FATAL x)"
proof (induction "length mem" arbitrary: mem k ce rule: less_induct)
  case less
  define r where "r = (if k = 0 then parse_pattern ce (zap mem) n
               else if k = 1 then Inr (ce\<lparr>c_url := Some (fst (strsep mem))\<rparr>)
               else if k = 2 then Inr (ce\<lparr>c_desc := Some (fst (strsep mem))\<rparr>)
               else Inr ce)"
  have unfold: "columns n (Some mem) k ce =
      (case r of Inl err \<Rightarrow> Inl err | Inr ce1 \<Rightarrow> columns n (snd (strsep mem)) (k + 1) ce1)"
    by (simp only: columns.simps Let_def r_def)
  show ?case
  proof (cases r)
    case (Inl err)
    then have "parse_pattern ce (zap mem) n = Inl err" by (auto simp: r_def split: if_splits)
    with parse_pattern_loop_not_fatal[of "zap mem" n _ x] have "err \<noteq> EPKG_FATAL x"
      by (auto simp: parse_pattern_def)
    with Inl show ?thesis by (simp add: unfold)
  next
    case (Inr ce1)
    show ?thesis
    proof (cases "snd (strsep mem)")
      case None
      with Inr show ?thesis by (simp add: unfold columns_end)
    next
      case (Some m1)
      from strsep_rest_shorter[OF Some] have "length m1 < length mem" .
      from less.hyps[OF this] Inr Some show ?thesis by (simp add: unfold)
    qed
  qed
qed

lemma parse_line_not_fatal: "parse_line line \<noteq> Inl (EPKG_FATAL x)"
  using columns_not_fatal[of "length line" line 0 calloc_entry x]
  by (auto simp: parse_line_def split: sum.splits option.splits)

lemma parse_lines_not_fatal: "parse_lines ls h \<noteq> Inl (EPKG_FATAL x)"
proof (induction ls arbitrary: h)
  case Nil
  show ?case by simp
next
  case (Cons l ls)
  show ?case using Cons.IH parse_line_not_fatal[of l x]
    by (auto split: sum.splits option.splits)
qed

lemma columns_rest:
  "k \<noteq> 0 \<Longrightarrow> unat k + count_list mem (CHR ''|'') \<le> 255 \<Longrightarrow>
   \<exists>ce1. columns n (Some mem) k ce = Inr ce1 \<and> c_pkgname ce1 = c_pkgname ce"
proof (induction "length mem" arbitrary: mem k ce rule: less_induct)
  case less
  define ce0 where "ce0 = (if k = 1 then ce\<lparr>c_url := Some (fst (strsep mem))\<rparr>
               else if k = 2 then ce\<lparr>c_desc := Some (fst (strsep mem))\<rparr>
               else ce)"
  have unfold: "columns n (Some mem) k ce = columns n (snd (strsep mem)) (k + 1) ce0"
    using less.prems(1) by (simp add: columns.simps Let_def ce0_def)
  have nm: "c_pkgname ce0 = c_pkgname ce" by (simp add: ce0_def)
  show ?case
  proof (cases "snd (strsep mem)")
    case None
    with nm show ?thesis by (simp add: unfold columns_end)
  next
    case (Some m1)
    from strsep_rest_shorter[OF Some] have sh: "length m1 < length mem" .
    from strsep_count[OF Some] less.prems(2)
    have c: "unat k < 255" "Suc (unat k) + count_list m1 (CHR ''|'') \<le> 255" by simp_all
    from unat_succ8[OF c(1)] have u: "unat (k + 1) = Suc (unat k)" .
    then have nz: "k + 1 \<noteq> 0" by (metis Zero_not_Suc unat_0)
    from c(2) u have b: "unat (k + 1) + count_list m1 (CHR ''|'') \<le> 255" by simp
    from less.hyps[OF sh nz b, of ce0] nm Some show ?thesis by (simp add: unfold)
  qed
qed

lemma pp_step_named:
  assumes "pp_named p s" "fst s < len" "pp_step pattern len s = Inr s1"
  shows "pp_named p s1"
proof -
  obtain i st dest vr ce where s: "s = (i, st, dest, vr, ce)" by (cases s)
  from assms(1) s have inv: "dest \<noteq> Some F_pkgname" "c_pkgname ce = Some p"
    by (auto simp: pp_named_def)
  from assms(3) s have "pp_step pattern len (i, st, dest, vr, ce) = Inr s1" by simp
  then show ?thesis
  proof (cases rule: pp_step_cases)
    case (wr d ty sk)
    from wr(1) inv(1) have "d \<noteq> F_pkgname" by simp
    then have "c_pkgname (store d x ce1) = c_pkgname ce1" for x ce1
      by (cases d) (simp_all add: store_def)
    with inv(2) show ?thesis unfolding wr(3) pp_named_def
      by (simp add: version_field_def split: vref.splits)
  next
    case skip
    with inv show ?thesis by (simp add: pp_named_def)
  qed
qed

lemma parse_pattern_loop_named:
  assumes "parse_pattern_loop pattern len s = Inr r" "pp_named p s"
  shows "c_pkgname r = Some p"
proof -
  have "\<exists>s'. pp_named p s' \<and> \<not> fst s' < len \<and> r = snd (snd (snd (snd s')))"
    apply (rule parse_pattern_loop_invariant[where I = "pp_named p", OF assms(1)])
     apply (rule assms(2))
    apply (rule pp_step_named; assumption)
    done
  then show ?thesis by (auto simp: pp_named_def)
qed

lemma first_store:
  assumes "parse_pattern_loop pattern len (i, 0, Some F_pkgname, vr, ce) = Inr r"
    and "i < len" "len \<le> length pattern"
    and "\<forall>j<i. \<not> pp_trigger pattern len j"
  shows "\<exists>i0<len. c_pkgname r = Some (strndup pattern i0) \<and> pp_trigger pattern len i0
           \<and> (\<forall>j<i0. \<not> pp_trigger pattern len j)"
  using assms
proof (induction "len - i" arbitrary: i rule: less_induct)
  case less
  let ?s = "(i, 0, Some F_pkgname, vr, ce)"
  note unfold = parse_pattern_loop.simps[of pattern len ?s]
  from less.prems(2,3) have pk: "peek pattern i = Some (pattern ! i)" by (simp add: peek_def)
  note eq = pp_step_eq[OF pk refl refl, of len 0 "Some F_pkgname" vr ce]
  show ?case
  proof (cases "pp_trigger pattern len i")
    case True
    then have "\<exists>s1. pp_step pattern len ?s = Inr s1 \<and> pp_named (strndup pattern i) s1"
      unfolding eq pp_trigger_def
      by (simp add: pp_named_def store_def version_field_def split: vref.splits)
    then obtain s1 where st: "pp_step pattern len ?s = Inr s1"
      and nm: "pp_named (strndup pattern i) s1" by blast
    from less.prems(1,2) st have r: "parse_pattern_loop pattern len s1 = Inr r"
      by (simp add: unfold)
    from parse_pattern_loop_named[OF r nm] have "c_pkgname r = Some (strndup pattern i)" .
    with True less.prems(2,4) show ?thesis by blast
  next
    case False
    then have st: "pp_step pattern len ?s = Inr (i + 1, 0, Some F_pkgname, vr, ce)"
      unfolding eq pp_trigger_def by simp
    from False less.prems(2) have lt: "i + 1 < len" by (auto simp: pp_trigger_def)
    from less.prems(1,2) st
    have r: "parse_pattern_loop pattern len (i + 1, 0, Some F_pkgname, vr, ce) = Inr r"
      by (simp add: unfold)
    have nt: "\<forall>j<i + 1. \<not> pp_trigger pattern len j"
      using less.prems(4) False by (auto simp: less_Suc_eq)
    have m: "len - (i + 1) < len - i" using less.prems(2) by simp
    from less.hyps[OF m r lt less.prems(3) nt] show ?thesis .
  qed
qed

lemma strndup_empty: "(strndup s n = []) = (n = 0 \<or> s = [] \<or> hd s = NUL)"
  by (cases s; cases n) (simp_all add: strndup_def)

lemma pkgname_empty:
  assumes "line \<noteq> []" "parse_pattern ce (zap line) (length line) = Inr r"
  shows "(c_pkgname r = Some []) = no_name line"
proof -
  from assms(2) have "parse_pattern_loop (zap line) (length line) (0, 0, Some F_pkgname, V1, ce) = Inr r"
    by (simp add: parse_pattern_def)
  from first_store[OF this] assms(1) obtain i0 where
    i0: "i0 < length line" "c_pkgname r = Some (strndup (zap line) i0)"
      "pp_trigger (zap line) (length line) i0" "\<forall>j<i0. \<not> pp_trigger (zap line) (length line) j"
    by auto
  obtain c cs where l: "line = c # cs" using assms(1) by (cases line) auto
  have z0: "zap line ! 0 = (if c = NUL \<or> c = CHR ''|'' then NUL else c)" by (simp add: l)
  have zh: "hd (zap line) = zap line ! 0" by (simp add: l)
  have zn: "zap line \<noteq> []" by (simp add: l)
  have t0: "pp_trigger (zap line) (length line) 0
      = (c = CHR ''='' \<or> c = CHR ''<'' \<or> c = CHR ''>'' \<or> length line = 1)"
    unfolding pp_trigger_def z0 using cmp_token_none[of "if c = NUL \<or> c = CHR ''|'' then NUL else c" "lookahead (zap line) 0"]
    by (auto simp: l NUL_def)
  have a: "(i0 = 0) = pp_trigger (zap line) (length line) 0" using i0(3,4) by (cases "i0 = 0") auto
  have b: "(strndup (zap line) i0 = []) = (i0 = 0 \<or> zap line ! 0 = NUL)"
    by (simp add: strndup_empty zh zn)
  from i0(2) have "(c_pkgname r = Some []) = (strndup (zap line) i0 = [])" by simp
  also have "\<dots> = (pp_trigger (zap line) (length line) 0 \<or> zap line ! 0 = NUL)" by (simp add: a b)
  also have "\<dots> = no_name line" unfolding t0 z0 by (auto simp: no_name_def l NUL_def)
  finally show ?thesis .
qed

lemma parse_line_comment: "comment_line line \<Longrightarrow> parse_line line = Inr None"
  by (cases line) (auto simp: comment_line_def parse_line_def peek_def)

lemma parse_line_entry:
  assumes "line \<noteq> []" "\<not> comment_line line" "count_list line (CHR ''|'') \<le> 255"
  shows "\<exists>ae. parse_line line = Inr (Some ae) \<and> ((pkgname ae = []) = no_name line)"
proof -
  from parse_pattern_live[of "length line" "zap line" calloc_entry] assms(1)
  obtain ce1 p where pp: "parse_pattern calloc_entry (zap line) (length line) = Inr ce1"
    and nm: "c_pkgname ce1 = Some p" by auto
  from pkgname_empty[OF assms(1) pp] nm have em: "(p = []) = no_name line" by simp
  have "\<exists>ce2. columns (length line) (snd (strsep line)) 1 ce1 = Inr ce2 \<and> c_pkgname ce2 = c_pkgname ce1"
  proof (cases "snd (strsep line)")
    case None
    then show ?thesis by (simp add: columns_end)
  next
    case (Some m1)
    from strsep_count[OF Some] assms(3)
    have b: "unat (1::8 word) + count_list m1 (CHR ''|'') \<le> 255" by simp
    have "(1::8 word) \<noteq> 0" by simp
    from columns_rest[OF this b, of "length line" ce1] Some show ?thesis by simp
  qed
  then obtain ce2 where c2: "columns (length line) (snd (strsep line)) 1 ce1 = Inr ce2"
    "c_pkgname ce2 = c_pkgname ce1" by blast
  from columns_first[OF pp] c2 have c: "columns (length line) (Some line) 0 calloc_entry = Inr ce2" by simp
  from assms(1,2) have "peek line 0 \<noteq> Some (CHR ''#'')"
    by (cases line) (auto simp: peek_def comment_line_def)
  with c c2(2) nm em show ?thesis by (simp add: parse_line_def)
qed

lemma parse_lines_entries:
  assumes "\<forall>l\<in>set ls. l \<noteq> [] \<and> count_list l (CHR ''|'') \<le> 255"
  shows "\<exists>es. parse_lines ls h = Inr (rev es @ h)
     \<and> list_all2 (\<lambda>l ae. parse_line l = Inr (Some ae) \<and> ((pkgname ae = []) = no_name l))
          (filter (\<lambda>l. \<not> comment_line l) ls) es"
  using assms
proof (induction ls arbitrary: h)
  case Nil
  show ?case by simp
next
  case (Cons l ls)
  from Cons.prems have l: "l \<noteq> []" "count_list l (CHR ''|'') \<le> 255"
    and rest: "\<forall>l\<in>set ls. l \<noteq> [] \<and> count_list l (CHR ''|'') \<le> 255" by simp_all
  show ?case
  proof (cases "comment_line l")
    case True
    from Cons.IH[OF rest, of h] obtain es where es: "parse_lines ls h = Inr (rev es @ h)"
      "list_all2 (\<lambda>l ae. parse_line l = Inr (Some ae) \<and> ((pkgname ae = []) = no_name l))
          (filter (\<lambda>l. \<not> comment_line l) ls) es" by blast
    have "parse_lines (l # ls) h = Inr (rev es @ h)"
      using l(1) parse_line_comment[OF True] es(1) by simp
    with es(2) True show ?thesis by auto
  next
    case False
    from parse_line_entry[OF l(1) False l(2)] obtain ae where
      ae: "parse_line l = Inr (Some ae)" "(pkgname ae = []) = no_name l" by blast
    from Cons.IH[OF rest, of "ae # h"] obtain es where es: "parse_lines ls (ae # h) = Inr (rev es @ ae # h)"
      "list_all2 (\<lambda>l ae. parse_line l = Inr (Some ae) \<and> ((pkgname ae = []) = no_name l))
          (filter (\<lambda>l. \<not> comment_line l) ls) es" by blast
    have a: "parse_lines (l # ls) h = Inr (rev (ae # es) @ h)" using l(1) ae(1) es(1) by simp
    have b: "list_all2 (\<lambda>l ae. parse_line l = Inr (Some ae) \<and> ((pkgname ae = []) = no_name l))
          (filter (\<lambda>l. \<not> comment_line l) (l # ls)) (ae # es)" using False ae es(2) by simp
    from a b show ?thesis by blast
  qed
qed

lemma glob_literal: "glob p s \<Longrightarrow> prefix (literal_prefix p) s"
proof (induction p s rule: glob.induct)
  case (1 s)
  show ?case by (simp add: literal_prefix_def)
next
  case (2 p ps)
  then show ?case by (simp add: literal_prefix_def)
next
  case (3 p ps c s)
  show ?case
  proof (cases "str_noglob_len (p # ps) = 0")
    case True
    then show ?thesis by (simp add: literal_prefix_def)
  next
    case False
    then have lit: "p \<noteq> NUL" "p \<noteq> CHR ''*''" "p \<noteq> CHR ''?''" "p \<noteq> CHR ''[''" "p \<noteq> CHR 0x5C"
      by (auto split: if_splits)
    with "3.prems" have m: "p = c" "glob ps s" by auto
    from "3.IH" lit m have "prefix (literal_prefix ps) s" by blast
    with m(1) False show ?thesis by (auto simp: literal_prefix_def split: if_splits)
  qed
qed

lemma fnmatch_fragment_literal: "fnmatch_literal fnmatch_fragment"
  by (auto simp: fnmatch_literal_def fnmatch_fragment_def dest: glob_literal split: if_splits)

lemma fnmatch_fragment_empty: "fnmatch_fragment [] s = 0 \<Longrightarrow> s = []"
  by (simp add: fnmatch_fragment_def split: if_splits)

lemma parse_lines_eof: "parse_lines ls h = parse_lines (takeWhile (\<lambda>l. l \<noteq> []) ls) h"
proof (induction ls arbitrary: h)
  case Nil
  show ?case by simp
next
  case (Cons l ls)
  show ?case
  proof (cases "l = []")
    case True
    then show ?thesis by simp
  next
    case False
    with Cons.IH show ?thesis by (simp split: sum.splits option.splits)
  qed
qed

lemma examine_sound:
  "examine fnm cmp ret name ver a i cnt acc = Inr res \<Longrightarrow>
   \<forall>ae\<in>set acc. fnm (pkgname ae) name = 0 \<Longrightarrow> \<forall>ae\<in>set res. fnm (pkgname ae) name = 0"
proof (induction fnm cmp ret name ver a i cnt acc rule: examine.induct)
  case (1 fnm cmp ret name ver a i cnt acc)
  note unfold = examine.simps[of fnm cmp ret name ver a i cnt acc]
  show ?case
  proof (cases "i < cnt")
    case False
    with "1.prems" show ?thesis by (simp add: unfold)
  next
    case True
    show ?thesis
    proof (cases "length ret \<le> a + i")
      case True
      with \<open>i < cnt\<close> "1.prems"(1) show ?thesis by (simp add: unfold split: if_splits)
    next
      case False
      then have b: "\<not> length ret < a + i" "a + i \<noteq> length ret" by simp_all
      show ?thesis
      proof (cases "fnm (pkgname (e (ret ! (a + i)))) name \<noteq> 0")
        case True
        with \<open>i < cnt\<close> b "1.prems"(1)
        have "examine fnm cmp ret name ver a (Suc i) cnt acc = Inr res" by (simp add: unfold)
        from "1.IH"(1)[OF \<open>i < cnt\<close> b True this "1.prems"(2)] show ?thesis .
      next
        case False
        show ?thesis
        proof (cases "match_version cmp ver (v1 (e (ret ! (a + i))))
               \<and> match_version cmp ver (v2 (e (ret ! (a + i))))")
          case True
          with \<open>i < cnt\<close> b False "1.prems"(1)
          have r: "examine fnm cmp ret name ver a (Suc i) cnt (acc @ [e (ret ! (a + i))]) = Inr res"
            by (simp add: unfold)
          have "\<forall>ae\<in>set (acc @ [e (ret ! (a + i))]). fnm (pkgname ae) name = 0"
            using "1.prems"(2) False by simp
          from "1.IH"(2)[OF \<open>i < cnt\<close> b False True r this] show ?thesis .
        next
          case nm: False
          with \<open>i < cnt\<close> b False "1.prems"(1)
          have r: "examine fnm cmp ret name ver a (Suc i) cnt acc = Inr res"
            by (simp add: unfold)
          from "1.IH"(3)[OF \<open>i < cnt\<close> b False nm r "1.prems"(2)] show ?thesis .
        qed
      qed
    qed
  qed
qed

lemma scan_sound:
  assumes "scan fnm cmp ret name ver a acc = Some y"
  shows "\<forall>res. y = Inr res \<longrightarrow> (\<forall>ae\<in>set acc. fnm (pkgname ae) name = 0)
           \<longrightarrow> (\<forall>ae\<in>set res. fnm (pkgname ae) name = 0)"
proof (rule scan.raw_induct[where P = "\<lambda>fnm cmp ret name ver a acc y.
     \<forall>res. y = Inr res \<longrightarrow> (\<forall>ae\<in>set acc. fnm (pkgname ae) name = 0)
           \<longrightarrow> (\<forall>ae\<in>set res. fnm (pkgname ae) name = 0)", OF _ assms])
  fix sc :: "(string \<Rightarrow> string \<Rightarrow> int) \<Rightarrow> (string \<Rightarrow> string \<Rightarrow> int) \<Rightarrow> audit_entry_sorted list \<Rightarrow>
   string \<Rightarrow> string \<Rightarrow> nat \<Rightarrow> audit_entry list \<Rightarrow> (error + audit_entry list) option"
    and fnm cmp :: "string \<Rightarrow> string \<Rightarrow> int" and ret :: "audit_entry_sorted list"
    and name ver :: string and a :: nat and acc :: "audit_entry list"
    and y :: "error + audit_entry list"
  let ?Q = "\<lambda>fnm name (xs :: audit_entry list). \<forall>ae\<in>set xs. fnm (pkgname ae) name = (0::int)"
  assume IH: "\<And>fnm cmp ret name ver a acc y. sc fnm cmp ret name ver a acc = Some y \<Longrightarrow>
      \<forall>res. y = Inr res \<longrightarrow> ?Q fnm name acc \<longrightarrow> ?Q fnm name res"
  let ?c = "strncmp name (pkgname (e (ret ! a))) (noglob_len (ret ! a))"
  let ?n = "a + next_pfx_incr (ret ! a)"
  assume body: "(if length ret < a then Some (Inl OutOfBounds)
      else if a = length ret then Some (Inr acc)
      else if 0 < ?c then sc fnm cmp ret name ver ?n acc
      else if ?c < 0 then Some (Inr acc)
      else (case examine fnm cmp ret name ver a 0 (next_pfx_incr (ret ! a)) acc of
             Inl err \<Rightarrow> Some (Inl err)
           | Inr acc1 \<Rightarrow> sc fnm cmp ret name ver ?n acc1)) = Some y"
  show "\<forall>res. y = Inr res \<longrightarrow> ?Q fnm name acc \<longrightarrow> ?Q fnm name res"
  proof (intro allI impI)
    fix res
    assume y: "y = Inr res" and acc: "?Q fnm name acc"
    consider (oob) "length ret < a" | (fin) "a = length ret"
      | (gt) "\<not> length ret < a" "a \<noteq> length ret" "0 < ?c"
      | (lt) "\<not> length ret < a" "a \<noteq> length ret" "\<not> 0 < ?c" "?c < 0"
      | (eq) "\<not> length ret < a" "a \<noteq> length ret" "\<not> 0 < ?c" "\<not> ?c < 0" by blast
    then show "?Q fnm name res"
    proof cases
      case oob
      from body have "Some (Inl OutOfBounds) = Some y" by (simp only: oob if_True)
      with y show ?thesis by simp
    next
      case fin
      with body have "Some (Inr acc) = Some y" by simp
      with y acc show ?thesis by simp
    next
      case gt
      from body have "sc fnm cmp ret name ver ?n acc = Some y" by (simp only: gt if_True if_False)
      from IH[OF this] y acc show ?thesis by blast
    next
      case lt
      from body have "Some (Inr acc) = Some y" by (simp only: lt if_True if_False)
      with y acc show ?thesis by simp
    next
      case eq
      from body have b: "(case examine fnm cmp ret name ver a 0 (next_pfx_incr (ret ! a)) acc of
             Inl err \<Rightarrow> Some (Inl err)
           | Inr acc1 \<Rightarrow> sc fnm cmp ret name ver ?n acc1) = Some y" by (simp only: eq if_False)
      show ?thesis
      proof (cases "examine fnm cmp ret name ver a 0 (next_pfx_incr (ret ! a)) acc")
        case (Inl err)
        with b have "Some (Inl err) = Some y" by (simp only: sum.case)
        with y show ?thesis by simp
      next
        case (Inr acc1)
        with b have "sc fnm cmp ret name ver ?n acc1 = Some y" by (simp only: sum.case)
        from IH[OF this] y examine_sound[OF Inr acc] show ?thesis by blast
      qed
    qed
  qed
qed

lemma is_vulnerable_sound:
  assumes "is_vulnerable char_signed fnm cmp idx (name, ver) = Some (Inr res)"
  shows "\<forall>ae\<in>set res. fnm (pkgname ae) name = 0"
proof -
  let ?k = "size_t_of_char char_signed (first_byte name)"
  from assms have "scan fnm cmp (fst idx) name ver (snd idx ! ?k) [] = Some (Inr res)"
    by (simp add: is_vulnerable_def Let_def split: if_splits)
  from scan_sound[OF this] show ?thesis by simp
qed

text \<open>
  C9, as stated, fails: a malformed line produces an entry that does match. The line
  \<open>foo\<close> has no separator (the specification calls such a line malformed); the parser
  stores the name pattern \<open>foo\<close> without bounds, and the query reports it for the
  package (foo, 1.0).
\<close>

theorem malformed_line_reported:
  "parse_db (Inr [''foo'' @ [NL]]) [] = Inr [name_only ''foo'']
   \<and> is_vulnerable False fnmatch_fragment lex_version_cmp
         (projr (preprocess_db False insertion_qsort [name_only ''foo''])) (''foo'', ''1.0'')
       = Some (Inr [name_only ''foo''])"
  by code_simp

text \<open>
  C9, amended. \<open>parse_db\<close> returns a fatal error exactly when the source cannot be
  opened, with the \<open>errno\<close> of the failed \<open>fopen\<close>. When every line has at most 255
  separators (the lines are those before the first empty read, which is the end of the
  file), the parse succeeds:
  a line that begins with \<open>#\<close> produces no entry, every other line produces exactly one
  entry, in front of the earlier ones, malformed or not. The name pattern of that entry
  is empty exactly when the line has no name: it holds a single byte, or it starts with
  a separator, a comparator or a NUL byte. An entry with an empty name pattern is never
  reported for a package with a non-empty name, \<open>fnmatch\<close> matching the empty pattern
  against the empty string only.
\<close>

theorem parse_db_failure_modes:
  assumes "\<forall>s. fnm [] s = 0 \<longrightarrow> s = []"
  shows "parse_db (Inl errno) h = Inl (EPKG_FATAL errno)
     \<and> (\<forall>src. (\<exists>n. parse_db src h = Inl (EPKG_FATAL n)) = (\<exists>n. src = Inl n))
     \<and> (\<forall>ls. (\<forall>l\<in>set (takeWhile (\<lambda>l. l \<noteq> []) ls). count_list l (CHR ''|'') \<le> 255) \<longrightarrow>
          (\<exists>es. parse_db (Inr ls) h = Inr (rev es @ h)
             \<and> list_all2 (\<lambda>l ae. parse_line l = Inr (Some ae) \<and> ((pkgname ae = []) = no_name l))
                  (filter (\<lambda>l. \<not> comment_line l) (takeWhile (\<lambda>l. l \<noteq> []) ls)) es))
     \<and> (\<forall>idx name ver res.
            name \<noteq> [] \<and> is_vulnerable char_signed fnm cmp idx (name, ver) = Some (Inr res)
            \<longrightarrow> (\<forall>ae\<in>set res. pkgname ae \<noteq> []))"
proof (intro conjI allI impI)
  show "parse_db (Inl errno) h = Inl (EPKG_FATAL errno)" by (simp add: parse_db_def)
next
  fix src
  show "(\<exists>n. parse_db src h = Inl (EPKG_FATAL n)) = (\<exists>n. src = Inl n)"
  proof (cases src)
    case (Inl n)
    then show ?thesis by (simp add: parse_db_def)
  next
    case (Inr ls)
    with parse_lines_not_fatal[of ls h] show ?thesis by (simp add: parse_db_def)
  qed
next
  fix ls :: "string list"
  let ?ls = "takeWhile (\<lambda>l. l \<noteq> []) ls"
  assume "\<forall>l\<in>set ?ls. count_list l (CHR ''|'') \<le> 255"
  moreover have "\<forall>l\<in>set ?ls. l \<noteq> []" by (auto dest: set_takeWhileD)
  ultimately have "\<forall>l\<in>set ?ls. l \<noteq> [] \<and> count_list l (CHR ''|'') \<le> 255" by blast
  from parse_lines_entries[OF this, of h] parse_lines_eof[of ls h]
  show "\<exists>es. parse_db (Inr ls) h = Inr (rev es @ h)
             \<and> list_all2 (\<lambda>l ae. parse_line l = Inr (Some ae) \<and> ((pkgname ae = []) = no_name l))
                  (filter (\<lambda>l. \<not> comment_line l) ?ls) es"
    by (simp add: parse_db_def)
next
  fix idx name ver res
  assume a: "name \<noteq> [] \<and> is_vulnerable char_signed fnm cmp idx (name, ver) = Some (Inr res)"
  show "\<forall>ae\<in>set res. pkgname ae \<noteq> []"
  proof
    fix ae
    assume "ae \<in> set res"
    with is_vulnerable_sound[of char_signed fnm cmp idx name ver res] a
    have "fnm (pkgname ae) name = 0" by simp
    with assms a show "pkgname ae \<noteq> []" by auto
  qed
qed

text \<open>
  A file of three lines, a comment, a line without a name and a line without
  separators, queried for the package (foo, 1.0).
\<close>

theorem parse_db_failure_modes_witness:
  "\<not> (\<exists>s. fnmatch_fragment [] s = 0 \<and> s \<noteq> [])
   \<and> list_all (\<lambda>l. count_list l (CHR ''|'') \<le> 255)
        (takeWhile (\<lambda>l. l \<noteq> []) [''#c'' @ [NL], ''|u|d'' @ [NL], ''foo'' @ [NL]])
   \<and> parse_db (Inl 2) [] = Inl (EPKG_FATAL 2)
   \<and> (\<exists>es. parse_db (Inr [''#c'' @ [NL], ''|u|d'' @ [NL], ''foo'' @ [NL]]) [] = Inr (rev es @ [])
        \<and> list_all2 (\<lambda>l ae. parse_line l = Inr (Some ae) \<and> ((pkgname ae = []) = no_name l))
             (filter (\<lambda>l. \<not> comment_line l)
                (takeWhile (\<lambda>l. l \<noteq> []) [''#c'' @ [NL], ''|u|d'' @ [NL], ''foo'' @ [NL]])) es)
   \<and> is_vulnerable True fnmatch_fragment lex_version_cmp
        (projr (preprocess_db True insertion_qsort
           (projr (parse_db (Inr [''#c'' @ [NL], ''|u|d'' @ [NL], ''foo'' @ [NL]]) []))))
        (''foo'', ''1.0'') = Some (Inr [name_only ''foo''])
   \<and> pkgname (name_only ''foo'') \<noteq> []"
proof -
  let ?ls = "[''#c'' @ [NL], ''|u|d'' @ [NL], ''foo'' @ [NL]]"
  have emp: "\<forall>s. fnmatch_fragment [] s = 0 \<longrightarrow> s = []" by (simp add: fnmatch_fragment_def)
  then have emp1: "\<not> (\<exists>s. fnmatch_fragment [] s = 0 \<and> s \<noteq> [])" by blast
  have ok: "\<forall>l\<in>set (takeWhile (\<lambda>l. l \<noteq> []) ?ls). count_list l (CHR ''|'') \<le> 255"
    by (simp add: NL_def)
  then have ok1: "list_all (\<lambda>l. count_list l (CHR ''|'') \<le> 255) (takeWhile (\<lambda>l. l \<noteq> []) ?ls)"
    by (simp only: list_all_iff)
  note t = parse_db_failure_modes[where fnm = fnmatch_fragment and char_signed = True
      and cmp = lex_version_cmp and h = "[]" and errno = 2, OF emp]
  note c3 = t[THEN conjunct2, THEN conjunct2, THEN conjunct1, THEN spec, THEN mp, OF ok]
  have q: "is_vulnerable True fnmatch_fragment lex_version_cmp
        (projr (preprocess_db True insertion_qsort (projr (parse_db (Inr ?ls) []))))
        (''foo'', ''1.0'') = Some (Inr [name_only ''foo''])" by code_simp
  have ne: "''foo'' \<noteq> []" by simp
  note c4 = t[THEN conjunct2, THEN conjunct2, THEN conjunct2, THEN spec, THEN spec, THEN spec,
      THEN spec, THEN mp, OF conjI[OF ne q]]
  then have c5: "pkgname (name_only ''foo'') \<noteq> []" by simp
  show ?thesis by (intro conjI) (rule emp1 ok1 t[THEN conjunct1] c3 q c5)+
qed

end
